theory Spec2Isabelle
  imports Complex_Main "HOL-Library.Word"
begin

section \<open>Values, bytes and errors\<close>

text \<open>
  The program is a single Python module, \<^verbatim>\<open>feed_my_wled.py\<close>. Byte strings are lists
  of 8-bit words, Python integers are \<^typ>\<open>int\<close>, and every exception the code can raise
  is a value of \<open>error\<close>; a function that may raise returns \<open>error + 'a\<close>.
\<close>

type_synonym byte = "8 word"

datatype error = ValueError | StructError | OverflowError | OSError

definition bind_err :: "error + 'a \<Rightarrow> ('a \<Rightarrow> error + 'b) \<Rightarrow> error + 'b" where
  "bind_err m f = (case m of Inl e \<Rightarrow> Inl e | Inr x \<Rightarrow> f x)"

section \<open>The packet encoder\<close>

subsection \<open>struct.pack\<close>

text \<open>
  \<^verbatim>\<open>struct.pack('<6s2B2fBB16B2B2f', ...)\<close>: the format is a list of codes, the
  arguments a list of Python values. \<^verbatim>\<open>pack\<close> first compares the number of
  arguments with the number of codes, then packs the items from left to right; the
  first item that cannot be packed raises.

  A float field takes a Python float (a double) and stores it as IEEE binary32. The
  encoder is generic in the type \<open>'f\<close> of float values and in the function \<open>enc\<close>,
  which gives the 32-bit pattern of a value, or \<open>None\<close> where \<^verbatim>\<open>pack\<close> raises
  \<^verbatim>\<open>OverflowError\<close> (a finite double beyond the binary32 range). The stream loop uses
  it with real numbers and \<open>pack_f32\<close>, defined below.
\<close>

datatype fmt = Fmt_s nat | Fmt_B | Fmt_f

datatype 'f pyval = PyBytes "byte list" | PyInt int | PyFloat 'f

definition le32 :: "32 word \<Rightarrow> byte list" where
  "le32 w = [ucast w, ucast (drop_bit 8 w), ucast (drop_bit 16 w), ucast (drop_bit 24 w)]"

fun pack_item :: "('f \<Rightarrow> 32 word option) \<Rightarrow> fmt \<Rightarrow> 'f pyval \<Rightarrow> error + byte list" where
  "pack_item enc (Fmt_s n) (PyBytes bs) = Inr (take n bs @ replicate (n - length bs) 0)"
| "pack_item enc Fmt_B (PyInt v) =
     (if 0 \<le> v \<and> v \<le> 255 then Inr [word_of_int v] else Inl StructError)"
| "pack_item enc Fmt_f (PyFloat x) =
     (case enc x of None \<Rightarrow> Inl OverflowError | Some w \<Rightarrow> Inr (le32 w))"
| "pack_item enc _ _ = Inl StructError"

fun pack_items :: "('f \<Rightarrow> 32 word option) \<Rightarrow> fmt list \<Rightarrow> 'f pyval list \<Rightarrow> error + byte list" where
  "pack_items enc [] [] = Inr []"
| "pack_items enc (c # cs) (v # vs) =
     bind_err (pack_item enc c v) (\<lambda>b. bind_err (pack_items enc cs vs) (\<lambda>bs. Inr (b @ bs)))"
| "pack_items enc _ _ = Inl StructError"

definition struct_pack :: "('f \<Rightarrow> 32 word option) \<Rightarrow> fmt list \<Rightarrow> 'f pyval list \<Rightarrow> error + byte list" where
  "struct_pack enc cs vs =
     (if length cs \<noteq> length vs then Inl StructError else pack_items enc cs vs)"

subsection \<open>create_udp_packet\<close>

text \<open>The format string \<^verbatim>\<open>'<6s2B2fBB16B2B2f'\<close> and the header \<^verbatim>\<open>b'00002'\<close>.\<close>

definition wled_fmt :: "fmt list" where
  "wled_fmt = [Fmt_s 6] @ replicate 2 Fmt_B @ replicate 2 Fmt_f @ [Fmt_B, Fmt_B]
     @ replicate 16 Fmt_B @ replicate 2 Fmt_B @ replicate 2 Fmt_f"

definition header :: "byte list" where
  "header = [0x30, 0x30, 0x30, 0x30, 0x32]"

text \<open>
  \<^verbatim>\<open>peak_level = int(peak_level)\<close> and \<^verbatim>\<open>[int(v) for v in fft_values]\<close> are the
  identity on integers, which is what the band values and the peak level are here.
\<close>

definition create_udp_packet ::
  "('f \<Rightarrow> 32 word option) \<Rightarrow> int list \<Rightarrow> 'f \<Rightarrow> 'f \<Rightarrow> int \<Rightarrow> 'f \<Rightarrow> 'f \<Rightarrow> error + byte list" where
  "create_udp_packet enc fft_values raw_level smoothed_level peak_level
       fft_magnitude_sum fft_peak_frequency =
     struct_pack enc wled_fmt
       ([PyBytes header, PyInt 0, PyInt 0, PyFloat raw_level, PyFloat smoothed_level,
         PyInt peak_level, PyInt 0]
        @ map PyInt fft_values
        @ [PyInt 0, PyInt 0, PyFloat fft_magnitude_sum, PyFloat fft_peak_frequency])"

section \<open>The ring buffer\<close>

text \<open>
  \<^verbatim>\<open>collections.deque(maxlen=n)\<close>: \<^verbatim>\<open>append\<close> adds on the right and, when the
  deque then holds more than \<open>maxlen\<close> items, drops the leftmost one.
\<close>

definition deque_append :: "nat \<Rightarrow> 'a list \<Rightarrow> 'a \<Rightarrow> 'a list" where
  "deque_append maxlen d x = (let d' = d @ [x] in if length d' > maxlen then tl d' else d')"

text \<open>
  \<^verbatim>\<open>combined_data = b"".join(ring_buffer)\<close> followed by
  \<^verbatim>\<open>combined_data[:chunk_size]\<close>: the bytes handed to the analysis.
\<close>

definition analysis_window :: "nat \<Rightarrow> byte list list \<Rightarrow> byte list" where
  "analysis_window chunk_size ring_buffer = take chunk_size (concat ring_buffer)"

section \<open>Sending\<close>

text \<open>
  \<^verbatim>\<open>udp_socket.sendto(udp_packet, (ip, port))\<close> either returns or raises \<^verbatim>\<open>OSError\<close>.
  Which destinations fail is the network's choice: it is given as the list of
  addresses for which the call raises.
\<close>

type_synonym addr = string

definition sendto :: "addr list \<Rightarrow> addr \<Rightarrow> error + unit" where
  "sendto failing ip = (if ip \<in> set failing then Inl OSError else Inr ())"

text \<open>
  The unicast loop \<^verbatim>\<open>for wled_ip in WLED_IP_ADDRESSES: udp_socket.sendto(...)\<close>.
  There is no handler around the call, so the first exception leaves the loop. The
  result is the list of addresses the packet was sent to, and the exception raised.
\<close>

fun send_unicast :: "addr list \<Rightarrow> addr list \<Rightarrow> addr list \<times> error option" where
  "send_unicast failing [] = ([], None)"
| "send_unicast failing (ip # ips) =
     (case sendto failing ip of
        Inl e \<Rightarrow> ([], Some e)
      | Inr u \<Rightarrow> (ip # fst (send_unicast failing ips), snd (send_unicast failing ips)))"

section \<open>Floating-point arithmetic\<close>

text \<open>
  Python floats and numpy's \<^verbatim>\<open>float64\<close> are IEEE 754 doubles. A finite double is a
  real number; an arithmetic operation of the source on doubles is the exact operation
  followed by \<open>fl64\<close>, rounding to the nearest double with ties to even. \<open>expo\<close> is the
  exponent of the binade of a magnitude, never below \<open>-1022\<close> (the subnormal range) and
  found by counting up from there; a double of that binade is a multiple of
  \<open>2 powi (expo - 52)\<close>. Signed zeros are not told apart, and the infinities and NaN
  have no value here: where the source could produce them, it is said.
\<close>

definition rne :: "real \<Rightarrow> int" where
  "rne x = (let f = \<lfloor>x\<rfloor> in
     if x - of_int f < 1 / 2 then f
     else if 1 / 2 < x - of_int f then f + 1
     else if even f then f else f + 1)"

fun expo_search :: "nat \<Rightarrow> int \<Rightarrow> real \<Rightarrow> int" where
  "expo_search 0 e a = e"
| "expo_search (Suc n) e a = (if 2 powi (e + 1) \<le> a then expo_search n (e + 1) a else e)"

definition expo :: "real \<Rightarrow> int" where
  "expo a = expo_search 2046 (- 1022) a"

definition fl64 :: "real \<Rightarrow> real" where
  "fl64 x = (let q = 2 powi (expo \<bar>x\<bar> - 52) in of_int (rne (x / q)) * q)"

text \<open>\<^verbatim>\<open>int(x)\<close> on a float truncates towards zero.\<close>

definition py_int :: "real \<Rightarrow> int" where
  "py_int x = (if 0 \<le> x then \<lfloor>x\<rfloor> else \<lceil>x\<rceil>)"

text \<open>
  The \<^verbatim>\<open>f\<close> format of \<^verbatim>\<open>struct.pack\<close> on a finite double: the value is rounded to
  the nearest binary32 (ties to even) and its bit pattern is the sign bit, the biased
  exponent and the fraction; \<^verbatim>\<open>pack\<close> raises \<^verbatim>\<open>OverflowError\<close> when the rounded
  magnitude is beyond the binary32 range. With \<open>e\<close> the exponent of the binade (not
  below \<open>-126\<close>) and \<open>m\<close> the magnitude in units of \<open>2 powi (e - 23)\<close>, the exponent and
  fraction fields together hold \<open>(e + 126) * 2 ^ 23 + m\<close>, for subnormal and normal
  values alike.
\<close>

definition pack_f32 :: "real \<Rightarrow> 32 word option" where
  "pack_f32 x = (let e = expo_search 253 (- 126) \<bar>x\<bar>; m = rne (\<bar>x\<bar> / 2 powi (e - 23)) in
     if 2 ^ 128 \<le> of_int m * (2::real) powi (e - 23) then None
     else Some (word_of_int ((if x < 0 then 2 ^ 31 else 0) + (e + 126) * 2 ^ 23 + m)))"

section \<open>The spectral analysis\<close>

subsection \<open>The numpy operations used\<close>

text \<open>
  \<^verbatim>\<open>np.frombuffer(audio_chunk, dtype=np.int16)\<close>: two bytes per sample, low byte first;
  a buffer of odd length raises \<^verbatim>\<open>ValueError\<close>.
\<close>

fun int16_of_bytes :: "byte list \<Rightarrow> 16 word list" where
  "int16_of_bytes (lo # hi # bs) = (ucast lo + push_bit 8 (ucast hi)) # int16_of_bytes bs"
| "int16_of_bytes _ = []"

definition frombuffer_int16 :: "byte list \<Rightarrow> error + 16 word list" where
  "frombuffer_int16 buf = (if odd (length buf) then Inl ValueError else Inr (int16_of_bytes buf))"

text \<open>
  \<^verbatim>\<open>np.abs\<close> on an \<^verbatim>\<open>int16\<close> array stays in \<^verbatim>\<open>int16\<close>: the negation wraps, so the
  absolute value of \<open>-32768\<close> is \<open>-32768\<close>.
\<close>

definition np_abs :: "16 word \<Rightarrow> 16 word" where
  "np_abs w = (if sint w < 0 then - w else w)"

text \<open>
  \<^verbatim>\<open>np.max\<close> raises \<^verbatim>\<open>ValueError\<close> on an empty array. \<^verbatim>\<open>np.argmax\<close> gives the first
  index of the maximum.
\<close>

fun np_max :: "'a::linorder list \<Rightarrow> error + 'a" where
  "np_max [] = Inl ValueError"
| "np_max (x # xs) = Inr (fold max xs x)"

definition np_argmax :: "'a::linorder list \<Rightarrow> nat" where
  "np_argmax xs = length (takeWhile (\<lambda>x. x < fold max xs (hd xs)) xs)"

text \<open>
  \<^verbatim>\<open>np.mean\<close> of an integer array: the sum, accumulated in doubles (exact for the sums
  of 16-bit values that fit a double), divided by the number of items. On an empty array
  it gives NaN with a warning, not an exception; the analysis never returns that value,
  because \<^verbatim>\<open>np.max\<close> raises next.
\<close>

definition np_mean :: "int list \<Rightarrow> real" where
  "np_mean xs = fl64 (of_int (sum_list xs) / of_nat (length xs))"

text \<open>
  \<^verbatim>\<open>np.abs(np.fft.rfft(x))\<close>: the magnitudes of the bins \<open>0..N div 2\<close> of the
  discrete Fourier transform. numpy computes them in doubles with an algorithm of its
  own; here they are the exact values, and so are the operations on them below
  (\<^verbatim>\<open>np.max\<close>, \<^verbatim>\<open>np.interp\<close>, \<^verbatim>\<open>np.sum\<close>).
\<close>

definition rfft_abs :: "int list \<Rightarrow> real list" where
  "rfft_abs xs = map (\<lambda>k. cmod (\<Sum>n<length xs.
       of_int (xs ! n) * cis (- 2 * pi * real k * real n / real (length xs))))
     [0..<length xs div 2 + 1]"

text \<open>
  \<^verbatim>\<open>np.interp(x, (x0, x1), (y0, y1))\<close> as numpy computes it for two sample points: to
  the right of \<open>x1\<close> the value is \<open>y1\<close>, to the left of \<open>x0\<close> it is \<open>y0\<close>; otherwise the
  search for the last point that is not above \<open>x\<close> decides: from \<open>x1\<close> on the value is
  \<open>y1\<close>, at \<open>x0\<close> exactly it is \<open>y0\<close>, and in between it is the line through the two
  points. numpy does not ask that \<open>x0 < x1\<close>: for \<open>x0 = x1\<close> the slope is infinite, and
  it is not used at \<open>x = x1\<close>, where the value is \<open>y1\<close>.
\<close>

definition np_interp :: "real \<Rightarrow> real \<times> real \<Rightarrow> real \<times> real \<Rightarrow> real" where
  "np_interp x xp fp = (case (xp, fp) of ((x0, x1), (y0, y1)) \<Rightarrow>
     if x1 < x then y1
     else if x < x0 then y0
     else if x1 \<le> x then y1
     else if x0 = x then y0
     else (y1 - y0) / (x1 - x0) * (x - x0) + y0)"

text \<open>\<^verbatim>\<open>astype(np.uint8)\<close> on a double: truncation, kept to 8 bits.\<close>

definition astype_uint8 :: "real \<Rightarrow> int" where
  "astype_uint8 x = py_int x mod 256"

subsection \<open>calculate_fft\<close>

record analysis =
  fft_values :: "int list"
  raw_level :: real
  peak_level :: int
  fft_magnitude_sum :: real
  fft_peak_frequency :: real

text \<open>
  \<^verbatim>\<open>sample_rate / len(audio_data)\<close> divides two Python integers: the quotient rounded
  to a double, and \<^verbatim>\<open>OverflowError\<close> when it is beyond the doubles.
\<close>

definition int_truediv :: "int \<Rightarrow> nat \<Rightarrow> error + real" where
  "int_truediv a n =
     (if 2 ^ 1024 - 2 ^ 970 \<le> \<bar>of_int a / of_nat n :: real\<bar> then Inl OverflowError
      else Inr (fl64 (of_int a / of_nat n)))"

text \<open>
  Every exception inside \<^verbatim>\<open>calculate_fft\<close> is caught by its handler, which returns a
  tuple that starts with \<^verbatim>\<open>None\<close>: that is the \<open>Inl\<close> result.
\<close>

definition calculate_fft :: "byte list \<Rightarrow> int \<Rightarrow> error + analysis" where
  "calculate_fft audio_chunk sample_rate =
     bind_err (frombuffer_int16 audio_chunk) (\<lambda>audio_data.
     bind_err (np_max (map (sint \<circ> np_abs) audio_data)) (\<lambda>peak.
     bind_err (np_max (rfft_abs (map sint audio_data))) (\<lambda>fft_max.
     bind_err (int_truediv sample_rate (length audio_data)) (\<lambda>bin_width.
       let fft_result = rfft_abs (map sint audio_data);
           fft_normalized = map (\<lambda>x. np_interp x (0, fft_max) (0, 255)) fft_result
       in Inr \<lparr>fft_values = map astype_uint8 (take 16 fft_normalized),
               raw_level = np_mean (map (sint \<circ> np_abs) audio_data),
               peak_level = py_int (fl64 (fl64 (of_int peak / 32767) * 255)),
               fft_magnitude_sum = sum_list fft_result,
               fft_peak_frequency = fl64 (of_nat (np_argmax fft_result) * bin_width)\<rparr>))))"

text \<open>
  The peak level as the specification words it, for comparison with the code:
  \<^verbatim>\<open>round(max(abs(samples)) / 32767 * 255)\<close>, clamped to \<open>0..255\<close>, on the
  mathematical absolute values of the samples.
\<close>

definition peak_level_spec :: "int list \<Rightarrow> int" where
  "peak_level_spec samples =
     max 0 (min 255 (round (of_int (Max (set (map abs samples))) / 32767 * 255 :: real)))"

section \<open>The stream loop\<close>

record config =
  wled_ip_addresses :: "addr list"
  use_multicast :: bool
  multicast_ip :: addr
  sample_rate :: int
  buffer_size :: nat
  chunk_size :: nat

record state =
  previous_smoothed_level :: real
  ring_buffer :: "byte list list"

text \<open>\<^verbatim>\<open>deque(maxlen=buffer_size // chunk_size)\<close>, then filled with blocks of zeros.\<close>

definition maxlen :: "config \<Rightarrow> nat" where
  "maxlen cfg = buffer_size cfg div chunk_size cfg"

definition initial_state :: "config \<Rightarrow> state" where
  "initial_state cfg =
     \<lparr>previous_smoothed_level = 0,
      ring_buffer = foldl (deque_append (maxlen cfg)) []
        (replicate (maxlen cfg) (replicate (chunk_size cfg) 0))\<rparr>"

text \<open>
  \<^verbatim>\<open>smoothed_level = (0.8 * previous_smoothed_level) + (0.2 * raw_level)\<close>, in doubles:
  the two literals are the doubles nearest to 0.8 and 0.2.
\<close>

definition smooth :: "real \<Rightarrow> real \<Rightarrow> real" where
  "smooth previous raw = fl64 (fl64 (fl64 (8 / 10) * previous) + fl64 (fl64 (2 / 10) * raw))"

text \<open>The multicast branch sends once; the unicast branch is \<open>send_unicast\<close>.\<close>

definition dispatch :: "config \<Rightarrow> addr list \<Rightarrow> addr list \<times> error option" where
  "dispatch cfg failing =
     (if use_multicast cfg then
        (case sendto failing (multicast_ip cfg) of
           Inl e \<Rightarrow> ([], Some e)
         | Inr u \<Rightarrow> ([multicast_ip cfg], None))
      else send_unicast failing (wled_ip_addresses cfg))"

text \<open>
  One turn of \<^verbatim>\<open>while True\<close>. Its inputs are the bytes that
  \<^verbatim>\<open>sys.stdin.buffer.read(chunk_size)\<close> returned and the destinations whose send
  fails in this turn. The turn either skips (\<^verbatim>\<open>continue\<close>, after a failed analysis),
  sends the packet, or raises, which ends the loop; a turn that raises has updated the
  smoothed level before.
\<close>

datatype outcome =
    Skipped
  | Sent analysis real "byte list" "addr list"
  | Raised analysis real "addr list" error

definition cycle ::
  "config \<Rightarrow> state \<Rightarrow> byte list \<Rightarrow> addr list \<Rightarrow> state \<times> outcome" where
  "cycle cfg st audio_data failing =
     (let rb = (if audio_data \<noteq> [] then deque_append (maxlen cfg) (ring_buffer st) audio_data
                else ring_buffer st)
      in case calculate_fft (analysis_window (chunk_size cfg) rb) (sample_rate cfg) of
           Inl e \<Rightarrow> (st\<lparr>ring_buffer := rb\<rparr>, Skipped)
         | Inr r \<Rightarrow>
             let smoothed_level = smooth (previous_smoothed_level st) (raw_level r);
                 st' = \<lparr>previous_smoothed_level = smoothed_level, ring_buffer = rb\<rparr>
             in (case create_udp_packet pack_f32 (fft_values r) (raw_level r) smoothed_level
                        (peak_level r) (fft_magnitude_sum r) (fft_peak_frequency r) of
                   Inl e \<Rightarrow> (st', Raised r smoothed_level [] e)
                 | Inr udp_packet \<Rightarrow>
                     (case dispatch cfg failing of
                        (sent, None) \<Rightarrow> (st', Sent r smoothed_level udp_packet sent)
                      | (sent, Some e) \<Rightarrow> (st', Raised r smoothed_level sent e))))"

text \<open>
  The loop over the turns for which inputs are given: it stops at the first turn that
  raises. The result is the state reached and the outcomes of the turns taken.
\<close>

fun run ::
  "config \<Rightarrow> state \<Rightarrow> (byte list \<times> addr list) list \<Rightarrow> state \<times> outcome list" where
  "run cfg st [] = (st, [])"
| "run cfg st ((audio_data, failing) # inputs) =
     (case cycle cfg st audio_data failing of
        (st', Raised r s sent e) \<Rightarrow> (st', [Raised r s sent e])
      | (st', out) \<Rightarrow> (fst (run cfg st' inputs), out # snd (run cfg st' inputs)))"

text \<open>
  The raw level and the smoothed level of a turn whose analysis succeeded; a turn that
  skipped has none.
\<close>

fun outcome_levels :: "outcome \<Rightarrow> (real \<times> real) list" where
  "outcome_levels Skipped = []"
| "outcome_levels (Sent r s pkt sent) = [(raw_level r, s)]"
| "outcome_levels (Raised r s sent e) = [(raw_level r, s)]"

text \<open>
  The smoothing as the specification words it, for comparison with the loop: from a
  start value, \<open>s\<^sub>i = 0.8 * s\<^sub>i\<^sub>-\<^sub>1 + 0.2 * r\<^sub>i\<close> over a sequence of raw levels, in
  the arithmetic of the source.
\<close>

fun smoothed_sequence :: "real \<Rightarrow> real list \<Rightarrow> real list" where
  "smoothed_sequence s [] = []"
| "smoothed_sequence s (r # rs) = smooth s r # smoothed_sequence (smooth s r) rs"

text \<open>
  A configuration for examples: one unicast destination, 8000 Hz, blocks of 60 bytes
  (30 samples) and a ring buffer of one block.
\<close>

definition example_config :: config where
  "example_config = \<lparr>wled_ip_addresses = [''10.0.0.1''], use_multicast = False,
     multicast_ip = ''239.0.0.1'', sample_rate = 8000, buffer_size = 60, chunk_size = 60\<rparr>"

section \<open>Properties of the encoder, the ring buffer and the sender\<close>

lemma bind_err_simps [simp]:
  "bind_err (Inl e) f = Inl e" "bind_err (Inr x) f = f x"
  by (simp_all add: bind_err_def)

lemma pack_items_append:
  "length cs1 = length vs1 \<Longrightarrow>
   pack_items enc (cs1 @ cs2) (vs1 @ vs2) =
     bind_err (pack_items enc cs1 vs1) (\<lambda>a. bind_err (pack_items enc cs2 vs2) (\<lambda>b. Inr (a @ b)))"
proof (induction cs1 vs1 rule: list_induct2)
  case Nil
  show ?case by (cases "pack_items enc cs2 vs2") simp_all
next
  case (Cons c cs v vs)
  show ?case
  proof (cases "pack_item enc c v")
    case (Inl e)
    then show ?thesis by simp
  next
    case (Inr b)
    then show ?thesis using Cons.IH
      by (cases "pack_items enc cs vs"; cases "pack_items enc cs2 vs2") simp_all
  qed
qed

lemma pack_items_B:
  "pack_items enc (replicate (length vs) Fmt_B) (map PyInt vs) =
     (if list_all (\<lambda>v. 0 \<le> v \<and> v \<le> 255) vs then Inr (map word_of_int vs) else Inl StructError)"
  by (induction vs) auto

lemma create_udp_packet_eq:
  "create_udp_packet enc bands raw smoothed peak msum pfreq =
     (if length bands \<noteq> 16 then Inl StructError
      else case enc raw of None \<Rightarrow> Inl OverflowError | Some wr \<Rightarrow>
        (case enc smoothed of None \<Rightarrow> Inl OverflowError | Some ws \<Rightarrow>
          (if \<not> (0 \<le> peak \<and> peak \<le> 255) then Inl StructError
           else if \<not> list_all (\<lambda>v. 0 \<le> v \<and> v \<le> 255) bands then Inl StructError
           else case enc msum of None \<Rightarrow> Inl OverflowError | Some wm \<Rightarrow>
             (case enc pfreq of None \<Rightarrow> Inl OverflowError | Some wp \<Rightarrow>
                Inr (header @ [0, 0, 0] @ le32 wr @ le32 ws @ [word_of_int peak, 0]
                     @ map word_of_int bands @ [0, 0] @ le32 wm @ le32 wp)))))"
proof (cases "length bands = 16")
  case False
  then show ?thesis by (simp add: create_udp_packet_def struct_pack_def wled_fmt_def)
next
  case True
  let ?pre = "[PyBytes header, PyInt 0, PyInt 0, PyFloat raw, PyFloat smoothed,
         PyInt peak, PyInt 0]"
  let ?post = "[PyInt 0, PyInt 0, PyFloat msum, PyFloat pfreq]"
  let ?cpre = "[Fmt_s 6, Fmt_B, Fmt_B, Fmt_f, Fmt_f, Fmt_B, Fmt_B]"
  let ?cpost = "[Fmt_B, Fmt_B, Fmt_f, Fmt_f]"
  have fmt: "wled_fmt = ?cpre @ replicate (length bands) Fmt_B @ ?cpost"
    by (simp add: wled_fmt_def True eval_nat_numeral)
  have len: "length wled_fmt = length (?pre @ map PyInt bands @ ?post)"
    by (simp add: fmt)
  have pre: "pack_items enc ?cpre ?pre =
      (case enc raw of None \<Rightarrow> Inl OverflowError | Some wr \<Rightarrow>
        (case enc smoothed of None \<Rightarrow> Inl OverflowError | Some ws \<Rightarrow>
          (if \<not> (0 \<le> peak \<and> peak \<le> 255) then Inl StructError
           else Inr (header @ [0, 0, 0] @ le32 wr @ le32 ws @ [word_of_int peak, 0]))))"
    by (simp add: header_def split: option.splits)
  have post: "pack_items enc ?cpost ?post =
      (case enc msum of None \<Rightarrow> Inl OverflowError | Some wm \<Rightarrow>
        (case enc pfreq of None \<Rightarrow> Inl OverflowError | Some wp \<Rightarrow>
           Inr ([0, 0] @ le32 wm @ le32 wp)))"
    by (simp split: option.splits)
  have "create_udp_packet enc bands raw smoothed peak msum pfreq =
      pack_items enc (?cpre @ replicate (length bands) Fmt_B @ ?cpost)
        (?pre @ map PyInt bands @ ?post)"
    unfolding create_udp_packet_def struct_pack_def using len by (simp add: fmt)
  also have "\<dots> = bind_err (pack_items enc ?cpre ?pre)
      (\<lambda>a. bind_err (bind_err (pack_items enc (replicate (length bands) Fmt_B) (map PyInt bands))
              (\<lambda>b. bind_err (pack_items enc ?cpost ?post) (\<lambda>c. Inr (b @ c))))
         (\<lambda>bc. Inr (a @ bc)))"
    by (simp only: pack_items_append [of ?cpre ?pre] pack_items_append [of "replicate (length bands) Fmt_B" "map PyInt bands"]
          length_replicate length_map list.size)
  finally show ?thesis
    unfolding pre post pack_items_B using True
    by (simp split: option.splits)
qed


text \<open>
  Claim C1, as the code has it. Whenever \<^verbatim>\<open>create_udp_packet\<close> returns a packet, the
  packet is exactly 44 bytes long (the size of \<^verbatim>\<open>'<6s2B2fBB16B2B2f'\<close>, not 62) and has
  the fixed layout: the header \<^verbatim>\<open>00002\<close> and a zero byte at offset 0, two zero bytes at
  offset 6, the raw level as a little-endian binary32 at offset 8, the smoothed level at
  offset 12, the peak level as one unsigned byte at offset 16, a zero byte at offset 17,
  the 16 band values as unsigned bytes at offset 18, two zero bytes at offset 34, the
  magnitude sum at offset 36 and the peak frequency at offset 40.
\<close>

theorem create_udp_packet_layout:
  assumes "create_udp_packet enc bands raw smoothed peak msum pfreq = Inr p"
  shows "length p = 44
    \<and> take 6 p = [0x30, 0x30, 0x30, 0x30, 0x32, 0]
    \<and> take 2 (drop 6 p) = [0, 0]
    \<and> map_option le32 (enc raw) = Some (take 4 (drop 8 p))
    \<and> map_option le32 (enc smoothed) = Some (take 4 (drop 12 p))
    \<and> uint (p ! 16) = peak
    \<and> p ! 17 = 0
    \<and> map uint (take 16 (drop 18 p)) = bands
    \<and> take 2 (drop 34 p) = [0, 0]
    \<and> map_option le32 (enc msum) = Some (take 4 (drop 36 p))
    \<and> map_option le32 (enc pfreq) = Some (take 4 (drop 40 p))"
proof -
  from assms obtain wr ws wm wp where
    len: "length bands = 16" and
    bands: "list_all (\<lambda>v. 0 \<le> v \<and> v \<le> 255) bands" and
    peak: "0 \<le> peak" "peak \<le> 255" and
    enc: "enc raw = Some wr" "enc smoothed = Some ws" "enc msum = Some wm" "enc pfreq = Some wp" and
    p: "p = header @ [0, 0, 0] @ le32 wr @ le32 ws @ [word_of_int peak, 0]
         @ map word_of_int bands @ [0, 0] @ le32 wm @ le32 wp"
    by (auto simp: create_udp_packet_eq split: if_splits option.splits)
  have l4: "length (le32 w) = 4" for w by (simp add: le32_def)
  have u8: "uint (word_of_int v :: byte) = v" if "0 \<le> v" "v \<le> 255" for v
    using that by (simp add: uint_word_of_int take_bit_int_eq_self)
  have ub: "map (uint \<circ> (word_of_int :: int \<Rightarrow> byte)) bands = bands"
    using bands by (induction bands) (simp_all add: u8)
  show ?thesis
    unfolding p using len peak
    by (simp add: l4 enc header_def nth_append u8 ub)
qed


lemma deque_append_drop:
  assumes "length d \<le> n"
  shows "deque_append n d x = drop (length d + 1 - n) (d @ [x])"
proof (cases "length d = n")
  case True
  have d1: "drop (Suc 0) ys = tl ys" for ys :: "'a list" by (simp add: drop_Suc)
  have "deque_append n d x = tl (d @ [x])" using True by (simp add: deque_append_def Let_def)
  also have "\<dots> = drop (Suc 0) (d @ [x])" by (rule d1 [symmetric])
  also have "Suc 0 = length d + 1 - n" using True by simp
  finally show ?thesis .
next
  case False
  with assms have lt: "length d < n" by simp
  then have k: "length d + 1 - n = 0" by simp
  have "deque_append n d x = d @ [x]" using lt by (simp add: deque_append_def Let_def)
  then show ?thesis by (simp only: k drop_0)
qed

lemma drop_snoc_window:
  "drop (length (drop (length ys - n) ys) + 1 - n) (drop (length ys - n) ys @ [b]) =
   drop (length ys + 1 - n) (ys @ [b])"
proof (cases "length ys \<le> n")
  case True
  then show ?thesis by simp
next
  case False
  then have gt: "n < length ys" by simp
  let ?k = "length ys - n"
  have l: "length (drop ?k ys) = n" using gt by simp
  have "drop (length (drop ?k ys) + 1 - n) (drop ?k ys @ [b]) = drop 1 (drop ?k ys @ [b])"
    by (simp only: l) simp
  also have "\<dots> = drop 1 (drop ?k (ys @ [b]))" by simp
  also have "\<dots> = drop (1 + ?k) (ys @ [b])" by (simp only: drop_drop)
  also have "1 + ?k = length ys + 1 - n" using gt by arith
  finally show ?thesis .
qed

lemma foldl_deque_append:
  "length d \<le> n \<Longrightarrow> foldl (deque_append n) d bs = drop (length d + length bs - n) (d @ bs)"
proof (induction bs rule: rev_induct)
  case Nil
  then show ?case by simp
next
  case (snoc b bs)
  let ?ys = "d @ bs"
  have len: "length (drop (length ?ys - n) ?ys) \<le> n" by simp
  have "foldl (deque_append n) d (bs @ [b]) = deque_append n (drop (length ?ys - n) ?ys) b"
    using snoc by simp
  also have "\<dots> = drop (length (drop (length ?ys - n) ?ys) + 1 - n) (drop (length ?ys - n) ?ys @ [b])"
    by (rule deque_append_drop [OF len])
  also have "\<dots> = drop (length ?ys + 1 - n) (?ys @ [b])"
    by (rule drop_snoc_window)
  finally show ?case by simp
qed

text \<open>
  Claim C3, as the code has it. For a ring buffer of capacity at least 1 in any state,
  after \<open>capacity + 1\<close> blocks of \<open>chunk_size\<close> bytes are pushed, exactly the last
  \<open>capacity\<close> of them remain (the oldest pushed block and everything older are evicted),
  and the first \<open>chunk_size\<close> bytes of the concatenation are the oldest block that
  remains, the second of the pushed blocks. That is the most recently pushed block
  when the capacity is 1.
\<close>

theorem ring_buffer_overflow:
  assumes "1 \<le> capacity" and "length d \<le> capacity" and "length bs = capacity + 1"
    and "list_all (\<lambda>b. length b = csize) bs"
  shows "foldl (deque_append capacity) d bs = tl bs
    \<and> length (foldl (deque_append capacity) d bs) = capacity
    \<and> analysis_window csize (foldl (deque_append capacity) d bs) = bs ! 1
    \<and> (capacity = 1 \<longrightarrow> analysis_window csize (foldl (deque_append capacity) d bs) = last bs)"
proof -
  have eq: "foldl (deque_append capacity) d bs = tl bs"
    using assms(2,3) by (simp add: foldl_deque_append drop_Suc)
  obtain b0 b1 rest where bs: "bs = b0 # b1 # rest"
    using assms(1,3) by (cases bs; cases "tl bs") auto
  have b1: "length b1 = csize" using assms(4) bs by simp
  have win: "analysis_window csize (tl bs) = bs ! 1"
    using b1 by (simp add: bs analysis_window_def)
  have "capacity = 1 \<Longrightarrow> rest = []" using assms(3) bs by simp
  then show ?thesis using eq win assms(3) by (auto simp: bs)
qed

text \<open>
  The theorem at capacity 2 with one-byte blocks: pushing \<open>[1], [2], [3]\<close> leaves
  \<open>[2], [3]\<close>, and the analysed bytes are \<open>[2]\<close>.
\<close>

theorem ring_buffer_overflow_witness:
  "foldl (deque_append 2) [[0], [0]] [[1], [2], [3 :: byte]] = [[2], [3]]
   \<and> analysis_window 1 (foldl (deque_append 2) [[0], [0]] [[1], [2], [3 :: byte]]) = [2]"
proof -
  have "(1::nat) \<le> 2" "length [[0], [0 :: byte]] \<le> 2" "length [[1], [2], [3 :: byte]] = 2 + 1"
    "list_all (\<lambda>b. length b = 1) [[1], [2], [3 :: byte]]" by simp_all
  from ring_buffer_overflow [OF this] show ?thesis by auto
qed

text \<open>
  Claim C3 as stated fails at capacity 2: the analysed bytes are not the most recently
  pushed block.
\<close>

theorem ring_buffer_window_counterexample:
  "analysis_window 1 (foldl (deque_append 2) [[0], [0]] [[1], [2], [3 :: byte]]) \<noteq> last [[1], [2], [3]]"
  by (simp add: deque_append_def analysis_window_def)

lemma send_unicast_fst:
  "fst (send_unicast failing ips) = takeWhile (\<lambda>ip. ip \<notin> set failing) ips"
  by (induction ips) (simp_all add: sendto_def)

lemma send_unicast_snd:
  "snd (send_unicast failing ips) = (if set ips \<inter> set failing = {} then None else Some OSError)"
  by (induction ips) (simp_all add: sendto_def)

text \<open>
  Claim C4, as the code has it. In unicast mode the addresses are tried in the
  configured order up to the first one whose send fails: the addresses before it get
  the packet, the failure is raised as an exception, and the addresses after it are not
  tried. When no send fails, every address gets the packet.
\<close>

theorem send_unicast_stops_at_first_failure:
  "send_unicast failing ips =
     (takeWhile (\<lambda>ip. ip \<notin> set failing) ips,
      if set ips \<inter> set failing = {} then None else Some OSError)
   \<and> dispatch (cfg\<lparr>use_multicast := False\<rparr>) failing =
     send_unicast failing (wled_ip_addresses cfg)"
  by (simp add: prod_eq_iff send_unicast_fst send_unicast_snd dispatch_def)

text \<open>
  Claim C4 as stated fails: with three destinations of which the first cannot be sent
  to, the other two do not get the packet, and the failure is raised.
\<close>

theorem send_unicast_counterexample:
  "send_unicast [''10.0.0.1''] [''10.0.0.1'', ''10.0.0.2'', ''10.0.0.3''] = ([], Some OSError)"
  by (simp add: sendto_def)

section \<open>Rounding to doubles\<close>

lemma rne_eqI: "\<bar>x - of_int m\<bar> < 1 / 2 \<Longrightarrow> rne x = m"
proof -
  assume a: "\<bar>x - of_int m\<bar> < 1 / 2"
  show ?thesis
  proof (cases "of_int m \<le> x")
    case True
    then have f: "\<lfloor>x\<rfloor> = m" using a by (intro floor_unique) auto
    show ?thesis using a True by (simp add: rne_def f Let_def)
  next
    case False
    then have f: "\<lfloor>x\<rfloor> = m - 1" using a by (intro floor_unique) auto
    show ?thesis using a False by (auto simp: rne_def f Let_def)
  qed
qed

lemma rne_of_int [simp]: "rne (of_int m) = m"
  by (rule rne_eqI) simp

lemma rne_error: "\<bar>of_int (rne x) - x\<bar> \<le> 1 / 2"
  unfolding rne_def Let_def by (auto simp: abs_le_iff)

lemma expo_search_eq:
  "e \<le> k \<Longrightarrow> k - e \<le> int n \<Longrightarrow> 2 powi k \<le> a \<Longrightarrow> a < 2 powi (k + 1) \<Longrightarrow> expo_search n e a = k"
proof (induction n arbitrary: e)
  case 0
  then show ?case by simp
next
  case (Suc n)
  show ?case
  proof (cases "e = k")
    case True
    then show ?thesis using Suc.prems by simp
  next
    case False
    with Suc.prems have lt: "e + 1 \<le> k" by simp
    have "(2::real) powi (e + 1) \<le> 2 powi k"
      using lt by (intro power_int_increasing) auto
    then have "2 powi (e + 1) \<le> a" using Suc.prems by linarith
    moreover have "expo_search n (e + 1) a = k"
      using Suc.prems lt by (intro Suc.IH) auto
    ultimately show ?thesis by simp
  qed
qed

lemma expo_search_low: "a < 2 powi (e + 1) \<Longrightarrow> expo_search n e a = e"
  by (cases n) auto

lemma expo_search_inv:
  "expo_search n e a = e \<or> 2 powi (expo_search n e a) \<le> a"
  by (induction n arbitrary: e) (auto, metis)

lemma expo_search_ge: "e \<le> expo_search n e a"
proof (induction n arbitrary: e)
  case (Suc n)
  show ?case using Suc [of "e + 1"] by auto
qed simp

lemma expo_eq:
  "- 1022 \<le> k \<Longrightarrow> k \<le> 1023 \<Longrightarrow> 2 powi k \<le> a \<Longrightarrow> a < 2 powi (k + 1) \<Longrightarrow> expo a = k"
  unfolding expo_def by (rule expo_search_eq) auto

lemma expo_le: "a \<le> 2 powi k \<Longrightarrow> - 1022 \<le> k \<Longrightarrow> expo a \<le> k"
proof -
  assume a: "a \<le> 2 powi k" and k: "- 1022 \<le> k"
  from expo_search_inv [of 2046 "- 1022" a]
  consider "expo a = - 1022" | "2 powi (expo a) \<le> a" unfolding expo_def by blast
  then show ?thesis
  proof cases
    case 1
    then show ?thesis using k by simp
  next
    case 2
    then have "(2::real) powi (expo a) \<le> 2 powi k" using a by linarith
    then show ?thesis
      using power_int_strict_increasing [of k "expo a" "2::real"] by (cases "expo a \<le> k") auto
  qed
qed

lemma fl64_zero [simp]: "fl64 0 = 0"
  using rne_of_int [of 0] by (simp add: fl64_def)

lemma fl64_eqI:
  assumes "- 1022 \<le> k" "k \<le> 1023" "2 powi k \<le> \<bar>x\<bar>" "\<bar>x\<bar> < 2 powi (k + 1)"
    and "\<bar>x / 2 powi (k - 52) - of_int m\<bar> < 1 / 2"
  shows "fl64 x = of_int m * 2 powi (k - 52)"
  using assms by (simp add: fl64_def expo_eq rne_eqI)

lemma fl64_error:
  assumes "\<bar>x\<bar> \<le> 2 powi k" "- 1022 \<le> k"
  shows "\<bar>fl64 x - x\<bar> \<le> 2 powi (k - 53)"
proof -
  let ?e = "expo \<bar>x\<bar>"
  let ?q = "(2::real) powi (?e - 52)"
  have q: "0 < ?q" by simp
  have "fl64 x - x = (of_int (rne (x / ?q)) - x / ?q) * ?q"
    using q by (simp add: fl64_def Let_def left_diff_distrib)
  then have "\<bar>fl64 x - x\<bar> = \<bar>of_int (rne (x / ?q)) - x / ?q\<bar> * ?q"
    using q by (simp add: abs_mult)
  also have "\<dots> \<le> 1 / 2 * ?q"
    using rne_error [of "x / ?q"] q by (intro mult_right_mono) auto
  also have "\<dots> = 2 powi (?e - 53)"
    by (simp add: power_int_diff)
  also have "\<dots> \<le> 2 powi (k - 53)"
    using expo_le [OF assms] by (intro power_int_increasing) auto
  finally show ?thesis .
qed


lemma fl64_08: "fl64 (8 / 10) = 3602879701896397 / 4503599627370496"
  using fl64_eqI [of "- 1" "8 / 10" 7205759403792794] by simp

lemma fl64_02: "fl64 (2 / 10) = 3602879701896397 / 18014398509481984"
  using fl64_eqI [of "- 3" "2 / 10" 7205759403792794] by simp

lemma fl64_int_exact:
  assumes "- 1022 \<le> k" "k \<le> 1023" "2 powi k \<le> \<bar>of_int n :: real\<bar>" "\<bar>of_int n :: real\<bar> < 2 powi (k + 1)" "k \<le> 52"
  shows "fl64 (of_int n) = of_int n"
proof -
  have "(of_int n :: real) / 2 powi (k - 52) = of_int (n * 2 ^ nat (52 - k))"
    using assms(5) by (simp add: power_int_def power_one_over)
  then have "\<bar>of_int n / 2 powi (k - 52) - of_int (n * 2 ^ nat (52 - k))\<bar> < (1 / 2 :: real)"
    by simp
  from fl64_eqI [OF assms(1-4) this] show ?thesis
    using assms(5) by (simp add: power_int_def power_one_over)
qed

lemma smooth_0_100: "smooth 0 100 = 20"
proof -
  have a: "fl64 (3602879701896397 / 18014398509481984 * 100) = 20"
    using fl64_eqI [of 4 "3602879701896397 / 18014398509481984 * 100" 5629499534213120] by simp
  have b: "fl64 20 = 20" using fl64_int_exact [of 4 20] by simp
  show ?thesis unfolding smooth_def fl64_08 fl64_02
    by (simp only: a b mult_zero_right fl64_zero add_0_right add_0_left)
qed

lemma smooth_20_0: "smooth 20 0 = 16"
proof -
  have a: "fl64 (3602879701896397 / 4503599627370496 * 20) = 16"
    using fl64_eqI [of 4 "3602879701896397 / 4503599627370496 * 20" 4503599627370496] by simp
  have b: "fl64 16 = 16" using fl64_int_exact [of 4 16] by simp
  show ?thesis unfolding smooth_def fl64_08 fl64_02
    by (simp only: a b mult_zero_right fl64_zero add_0_right add_0_left)
qed

lemma fl64_12_8: "fl64 (64 / 5) = 3602879701896397 / 281474976710656"
  using fl64_eqI [of 3 "64 / 5" 7205759403792794] by simp

lemma smooth_16_0: "smooth 16 0 = fl64 (64 / 5)"
proof -
  have a: "fl64 (3602879701896397 / 4503599627370496 * 16) = 3602879701896397 / 281474976710656"
    using fl64_eqI [of 3 "3602879701896397 / 4503599627370496 * 16" 7205759403792794] by simp
  have b: "fl64 (3602879701896397 / 281474976710656) = 3602879701896397 / 281474976710656"
    using fl64_eqI [of 3 "3602879701896397 / 281474976710656" 7205759403792794] by simp
  show ?thesis unfolding smooth_def fl64_08 fl64_02
    by (simp only: a b mult_zero_right fl64_zero add_0_right add_0_left fl64_12_8)
qed

lemma nyquist_rounding:
  "fl64 (15 * fl64 (8000 / 30)) = 8796093022208001 / 2199023255552"
proof -
  have a: "fl64 (8000 / 30) = 4691249611844267 / 17592186044416"
    using fl64_eqI [of 8 "8000 / 30" 4691249611844267] by simp
  have b: "fl64 (15 * (4691249611844267 / 17592186044416)) = 8796093022208001 / 2199023255552"
    using fl64_eqI [of 11 "15 * (4691249611844267 / 17592186044416)" 8796093022208001] by simp
  show ?thesis by (simp only: a b)
qed

section \<open>Properties of the analysis\<close>

lemma length_int16_of_bytes: "length (int16_of_bytes bs) = length bs div 2"
  by (induction bs rule: int16_of_bytes.induct) simp_all

lemma fold_max_Max: "fold max xs x = Max (set (x # xs))"
  by (simp only: Max.set_eq_fold)

lemma np_max_Cons: "np_max xs = (if xs = [] then Inl ValueError else Inr (Max (set xs)))"
  by (cases xs) (simp_all only: np_max.simps fold_max_Max if_True if_False list.distinct refl)

lemma length_rfft_abs [simp]: "length (rfft_abs xs) = length xs div 2 + 1"
  by (simp add: rfft_abs_def)

lemma rfft_abs_nonempty [simp]: "rfft_abs xs \<noteq> []"
  using length_rfft_abs [of xs] by (metis Suc_eq_plus1 length_0_conv nat.distinct(1))

lemma rfft_abs_nonneg: "x \<in> set (rfft_abs xs) \<Longrightarrow> 0 \<le> x"
  by (auto simp: rfft_abs_def)

lemma np_argmax_less: "xs \<noteq> [] \<Longrightarrow> np_argmax xs < length xs"
proof -
  assume ne: "xs \<noteq> []"
  let ?P = "\<lambda>x. x < fold max xs (hd xs)"
  have m: "fold max xs (hd xs) = Max (set xs)"
  proof (cases xs)
    case Nil
    with ne show ?thesis by simp
  next
    case (Cons a list)
    have "fold max (a # list) a = fold max list a" by simp
    then show ?thesis unfolding Cons list.sel by (simp only: fold_max_Max)
  qed
  have "Max (set xs) \<in> set xs" using ne by simp
  then have "\<not> (\<forall>x\<in>set xs. ?P x)" unfolding m by auto
  then have "takeWhile ?P xs \<noteq> xs" by (simp add: takeWhile_eq_all_conv)
  moreover have "length (takeWhile ?P xs) \<le> length xs" by (rule length_takeWhile_le)
  moreover have "length (takeWhile ?P xs) = length xs \<Longrightarrow> takeWhile ?P xs = xs"
    by (metis append_self_conv length_append add_cancel_right_right length_0_conv takeWhile_dropWhile_id)
  ultimately show ?thesis unfolding np_argmax_def by fastforce
qed

lemma calculate_fft_eq:
  "calculate_fft chunk sr =
     (if odd (length chunk) \<or> chunk = [] then Inl ValueError
      else if 2 ^ 1024 - 2 ^ 970 \<le> \<bar>of_int sr / of_nat (length chunk div 2) :: real\<bar> then Inl OverflowError
      else let xs = int16_of_bytes chunk; mags = rfft_abs (map sint xs) in
        Inr \<lparr>fft_values = map (\<lambda>x. astype_uint8 (np_interp x (0, Max (set mags)) (0, 255))) (take 16 mags),
             raw_level = np_mean (map (sint \<circ> np_abs) xs),
             peak_level = py_int (fl64 (fl64 (of_int (Max (set (map (sint \<circ> np_abs) xs))) / 32767) * 255)),
             fft_magnitude_sum = sum_list mags,
             fft_peak_frequency = fl64 (of_nat (np_argmax mags) * fl64 (of_int sr / of_nat (length chunk div 2)))\<rparr>)"
proof -
  have e: "int16_of_bytes chunk = [] \<longleftrightarrow> chunk = []" if "even (length chunk)"
    using that length_int16_of_bytes [of chunk] by (cases chunk) (auto elim: evenE)
  show ?thesis
    unfolding calculate_fft_def frombuffer_int16_def
    by (auto simp: np_max_Cons int_truediv_def length_int16_of_bytes Let_def e take_map simp del: set_map)
qed

lemma np_interp_range:
  assumes "0 \<le> x" "x \<le> M"
  shows "0 \<le> np_interp x (0, M) (0, 255) \<and> np_interp x (0, M) (0, 255) \<le> 255"
proof -
  have "255 / M * x \<le> 255" if "x < M"
  proof -
    have "0 < M" using assms that by linarith
    then show ?thesis using that by (simp add: field_simps)
  qed
  moreover have "0 \<le> 255 / M * x" using assms by simp
  ultimately show ?thesis by (auto simp: np_interp_def)
qed

lemma astype_uint8_floor: "0 \<le> x \<Longrightarrow> x \<le> 255 \<Longrightarrow> astype_uint8 x = \<lfloor>x\<rfloor>"
proof -
  assume a: "0 \<le> x" "x \<le> 255"
  then have "0 \<le> \<lfloor>x\<rfloor>" "\<lfloor>x\<rfloor> \<le> 255" by (simp_all add: floor_le_iff le_floor_iff)
  then show ?thesis using a by (simp add: astype_uint8_def py_int_def)
qed

lemma astype_uint8_range: "0 \<le> astype_uint8 x \<and> astype_uint8 x \<le> 255"
  by (simp add: astype_uint8_def)


lemma int16_of_bytes_zeros: "int16_of_bytes (replicate (2 * n) 0) = replicate n 0"
  by (induction n) simp_all

lemma rfft_abs_zeros: "rfft_abs (replicate n 0) = replicate (n div 2 + 1) 0"
proof -
  have "(\<Sum>i<n. of_int (replicate n (0::int) ! i) * cis (- 2 * pi * real k * real i / real n)) = 0" for k
    by (rule sum.neutral) simp
  then show ?thesis
    unfolding rfft_abs_def by (simp add: map_replicate_const)
qed

lemma np_argmax_Max:
  assumes "xs \<noteq> []"
  shows "np_argmax xs = length (takeWhile (\<lambda>x. x < Max (set xs)) xs)"
proof -
  obtain a list where xs: "xs = a # list" using assms by (cases xs) auto
  have "fold max (a # list) a = fold max list a" by simp
  then have "fold max xs (hd xs) = Max (set xs)"
    unfolding xs list.sel by (simp only: fold_max_Max)
  then show ?thesis by (simp add: np_argmax_def)
qed

lemma Max_replicate: "0 < n \<Longrightarrow> Max (set (replicate n x)) = x"
  by simp

lemma np_argmax_zeros: "0 < n \<Longrightarrow> np_argmax (replicate n (0::real)) = 0"
proof -
  assume n: "0 < n"
  then have ne: "replicate n (0::real) \<noteq> []" by simp
  obtain k where k: "n = Suc k" using n by (cases n) auto
  show ?thesis unfolding np_argmax_Max [OF ne] Max_replicate [OF n] by (simp add: k)
qed

lemma calculate_fft_silence:
  assumes "0 < n" and "\<bar>of_int sr / of_nat n :: real\<bar> < 2 ^ 1024 - 2 ^ 970"
  shows "calculate_fft (replicate (2 * n) 0) sr =
     Inr \<lparr>fft_values = replicate (min 16 (n div 2 + 1)) 255, raw_level = 0, peak_level = 0,
          fft_magnitude_sum = 0, fft_peak_frequency = 0\<rparr>"
proof -
  have i: "np_interp 0 (0, 0) (0, 255) = 255" by (simp add: np_interp_def)
  have a: "astype_uint8 255 = 255" by (simp add: astype_uint8_def py_int_def)
  have z: "sint (np_abs 0) = 0" by (simp add: np_abs_def)
  have m: "Max (set (replicate n (0::int))) = 0" using assms(1) by (simp add: Max_replicate)
  have m': "Max (set (replicate (Suc (n div 2)) (0::real))) = 0" by (rule Max_replicate) simp
  have s: "sum_list (replicate k (0::real)) = 0" for k by (induction k) simp_all
  have s': "sum_list (replicate k (0::int)) = 0" for k by (induction k) simp_all
  show ?thesis
    using assms
    unfolding calculate_fft_eq
    by (simp add: int16_of_bytes_zeros rfft_abs_zeros Let_def i a z m m' s s' np_mean_def
        np_argmax_zeros map_replicate_const py_int_def del: replicate_Suc set_replicate)
qed

lemma dft_alternating:
  assumes "k \<le> M" and "0 < M"
  shows "(\<Sum>n<2 * M. of_int ((- 1) ^ n) * cis (- 2 * pi * real k * real n / real (2 * M)))
      = (if k = M then of_nat (2 * M) else 0)"
proof -
  let ?phi = "pi - pi * real k / real M"
  have tm: "of_int ((- 1) ^ n) * cis (- 2 * pi * real k * real n / real (2 * M)) = cis ?phi ^ n" for n
  proof -
    have "real n * ?phi = real n * pi + (- (real n * (pi * real k / real M)))"
      by (simp add: algebra_simps)
    then have "cis ?phi ^ n = cis (real n * pi) * cis (- (real n * (pi * real k / real M)))"
      by (simp only: DeMoivre cis_mult)
    also have "cis (real n * pi) = (- 1) ^ n"
      using DeMoivre [of pi n] by simp
    also have "- (real n * (pi * real k / real M)) = - 2 * pi * real k * real n / real (2 * M)"
      using assms(2) by (simp add: field_simps)
    finally show ?thesis by simp
  qed
  have sum: "(\<Sum>n<2 * M. of_int ((- 1) ^ n) * cis (- 2 * pi * real k * real n / real (2 * M)))
      = (\<Sum>n<2 * M. cis ?phi ^ n)"
    by (simp only: tm)
  show ?thesis
  proof (cases "k = M")
    case True
    then have "cis ?phi = 1" using assms(2) by simp
    then show ?thesis using True unfolding sum by simp
  next
    case False
    with assms have lt: "real k < real M" by simp
    then have "real k / real M < 1" using assms(2) by simp
    then have "pi * (real k / real M) < pi * 1"
      by (intro mult_strict_left_mono) auto
    then have pos: "0 < ?phi" by simp
    have le: "?phi \<le> pi" using assms(2) by simp
    have "cos ?phi < cos 0" using pos le by (intro cos_monotone_0_pi) auto
    then have "Re (cis ?phi) \<noteq> 1" by simp
    then have ne: "cis ?phi \<noteq> 1" by (metis one_complex.simps(1))
    have "real (2 * M) * ?phi = 2 * pi * real (M - k)"
      using assms by (simp add: field_simps of_nat_diff)
    then have "cis ?phi ^ (2 * M) = cis (2 * pi * real (M - k))"
      by (simp only: DeMoivre)
    also have "\<dots> = 1" by (rule cis_multiple_2pi) simp
    finally have one: "cis ?phi ^ (2 * M) = 1" .
    show ?thesis using False unfolding sum geometric_sum [OF ne] one by simp
  qed
qed

text \<open>
  Claim C2: for an all-zero block the raw level, the peak level, every band value and
  the magnitude sum are 0. The code gives 0 for the levels and the sum, but every band
  value is 255: with a maximum of 0 the normalisation is \<^verbatim>\<open>np.interp(0, (0, 0), (0, 255))\<close>,
  which is 255. Here for a block of 64 zero bytes.
\<close>

theorem calculate_fft_silence_bands:
  "calculate_fft (replicate 64 0) 44100 =
     Inr \<lparr>fft_values = replicate 16 255,
          raw_level = 0, peak_level = 0, fft_magnitude_sum = 0, fft_peak_frequency = 0\<rparr>"
proof -
  have e: "(2::nat) * 32 = 64" and m: "min 16 (32 div 2 + 1) = (16::nat)" by simp_all
  have "calculate_fft (replicate (2 * 32) 0) 44100 =
     Inr \<lparr>fft_values = replicate (min 16 (32 div 2 + 1)) 255, raw_level = 0, peak_level = 0,
          fft_magnitude_sum = 0, fft_peak_frequency = 0\<rparr>"
    by (rule calculate_fft_silence) simp_all
  then show ?thesis unfolding e m .
qed

lemma rfft_abs_alternating:
  assumes "0 < M"
  shows "rfft_abs (map (\<lambda>n. (- 1) ^ n) [0..<2 * M]) = replicate M 0 @ [real (2 * M)]"
proof -
  let ?xs = "map (\<lambda>n. (- 1) ^ n :: int) [0..<2 * M]"
  have bin: "cmod (\<Sum>n<length ?xs. of_int (?xs ! n) * cis (- 2 * pi * real k * real n / real (length ?xs)))
      = (if k = M then real (2 * M) else 0)" if "k \<le> M" for k
  proof -
    have "(\<Sum>n<length ?xs. of_int (?xs ! n) * cis (- 2 * pi * real k * real n / real (length ?xs)))
        = (\<Sum>n<2 * M. of_int ((- 1) ^ n) * cis (- 2 * pi * real k * real n / real (2 * M)))"
      by (rule sum.cong) simp_all
    also have "\<dots> = (if k = M then of_nat (2 * M) else 0)"
      by (rule dft_alternating [OF that assms])
    finally show ?thesis by (simp del: of_nat_mult)
  qed
  have d: "length ?xs div 2 + 1 = M + 1" by simp
  have "rfft_abs ?xs = map (\<lambda>k. if k = M then real (2 * M) else 0) [0..<M + 1]"
    unfolding rfft_abs_def d
  proof (rule map_cong [OF refl])
    fix k assume "k \<in> set [0..<M + 1]"
    then have "k \<le> M" by auto
    then show "cmod (\<Sum>n<length ?xs. of_int (?xs ! n) * cis (- 2 * pi * real k * real n / real (length ?xs)))
      = (if k = M then real (2 * M) else 0)" by (rule bin)
  qed
  also have "\<dots> = replicate M 0 @ [real (2 * M)]"
  proof -
    have "map (\<lambda>k. if k = M then real (2 * M) else 0) [0..<M] = map (\<lambda>k. 0) [0..<M]"
      by (rule map_cong) auto
    then show ?thesis by (simp add: map_replicate_const)
  qed
  finally show ?thesis .
qed

lemma np_argmax_peak_last:
  assumes "0 < c"
  shows "np_argmax (replicate M 0 @ [c :: real]) = M"
proof -
  have mx: "Max (set (replicate M 0 @ [c])) = c"
    using assms by (cases "M = 0") (simp_all add: max_def)
  have tw: "takeWhile (\<lambda>x. x < c) (replicate M 0 @ [c]) = replicate M 0 @ takeWhile (\<lambda>x. x < c) [c]"
    by (rule takeWhile_append2) (use assms in auto)
  have ne: "replicate M 0 @ [c] \<noteq> []" by simp
  show ?thesis unfolding np_argmax_Max [OF ne] mx tw by simp
qed

lemma int16_of_bytes_append:
  "even (length as) \<Longrightarrow> int16_of_bytes (as @ bs) = int16_of_bytes as @ int16_of_bytes bs"
  by (induction as rule: int16_of_bytes.induct) simp_all

lemma alt_samples:
  "map sint (int16_of_bytes (concat (replicate M [1, 0, 255, 255]))) = map (\<lambda>n. (- 1) ^ n) [0..<2 * M]"
proof (induction M)
  case 0
  show ?case by simp
next
  case (Suc M)
  have w: "sint (ucast (1 :: byte) + push_bit 8 (ucast (0 :: byte)) :: 16 word) = 1"
    "sint (ucast (255 :: byte) + push_bit 8 (ucast (255 :: byte)) :: 16 word) = - 1"
    by simp_all
  have ev: "even (length (concat (replicate M [1, 0, 255, 255 :: byte])))"
    by (simp add: length_concat sum_list_replicate)
  have "concat (replicate (Suc M) [1, 0, 255, 255 :: byte]) = concat (replicate M [1, 0, 255, 255]) @ [1, 0, 255, 255]"
  proof -
    have "replicate (Suc M) [1, 0, 255, 255 :: byte] = replicate M [1, 0, 255, 255] @ [[1, 0, 255, 255]]"
      by (simp add: replicate_append_same)
    then show ?thesis by (simp only: concat_append concat.simps append_Nil2)
  qed
  then have "map sint (int16_of_bytes (concat (replicate (Suc M) [1, 0, 255, 255])))
      = map (\<lambda>n. (- 1) ^ n) [0..<2 * M] @ [1, - 1]"
    using Suc ev by (simp add: int16_of_bytes_append w)
  also have "\<dots> = map (\<lambda>n. (- 1) ^ n) [0..<2 * Suc M]"
    by simp
  finally show ?case .
qed

lemma calculate_fft_alternating:
  "\<exists>r. calculate_fft (concat (replicate 15 [1, 0, 255, 255])) 8000 = Inr r
     \<and> np_argmax (rfft_abs (map sint (int16_of_bytes (concat (replicate 15 [1, 0, 255, 255]))))) = 15
     \<and> fft_peak_frequency r = 8796093022208001 / 2199023255552"
proof -
  let ?c = "concat (replicate 15 [1, 0, 255, 255 :: byte])"
  let ?mags = "rfft_abs (map sint (int16_of_bytes ?c))"
  have len: "length ?c = 60" by (simp add: length_concat sum_list_replicate)
  have mags: "?mags = replicate 15 0 @ [real (2 * 15)]"
    unfolding alt_samples by (rule rfft_abs_alternating) simp
  have idx: "np_argmax ?mags = 15"
    unfolding mags by (rule np_argmax_peak_last) simp
  have "\<exists>r. calculate_fft ?c 8000 = Inr r
      \<and> fft_peak_frequency r = fl64 (of_nat (np_argmax ?mags) * fl64 (of_int 8000 / of_nat (length ?c div 2)))"
    unfolding calculate_fft_eq by (simp add: len Let_def)
  then obtain r where r: "calculate_fft ?c 8000 = Inr r"
    and pf: "fft_peak_frequency r = fl64 (of_nat (np_argmax ?mags) * fl64 (of_int 8000 / of_nat (length ?c div 2)))"
    by blast
  have a: "real 15 = 15" and b: "(of_int 8000 :: real) / of_nat (60 div 2) = 8000 / 30" by simp_all
  have "fft_peak_frequency r = 8796093022208001 / 2199023255552"
    unfolding pf idx len a b by (rule nyquist_rounding)
  then show ?thesis using r idx by blast
qed


lemma pack_items_short:
  "length vs < n \<Longrightarrow> pack_items enc (replicate n Fmt_B) (map PyInt vs) = Inl StructError"
proof (induction vs arbitrary: n)
  case Nil
  then show ?case by (cases n) simp_all
next
  case (Cons v vs)
  then obtain m where n: "n = Suc m" and "length vs < m" by (cases n) auto
  then show ?case using Cons.IH [of m] by simp
qed



lemma not_dvd_255:
  assumes "0 < m" "m < 32767"
  shows "\<not> (32767::int) dvd 255 * m"
proof
  assume d: "(32767::int) dvd 255 * m"
  have d1: "(32767::int) dvd 257 * (255 * m)" using d by (rule dvd_mult)
  have d2: "(32767::int) dvd 32767 * (2 * m)" by (rule dvd_triv_left)
  have e: "257 * (255 * m) - 32767 * (2 * m) = m" by simp
  have "(32767::int) dvd m" using dvd_diff [OF d1 d2] unfolding e .
  then have "32767 \<le> m" using assms(1) by (rule zdvd_imp_le)
  then show False using assms(2) by simp
qed

lemma fl64_1: "fl64 1 = 1"
  using fl64_int_exact [of 0 1] by simp

lemma fl64_255: "fl64 255 = 255"
  using fl64_int_exact [of 7 255] by simp

lemma peak_formula:
  assumes "0 \<le> m" "m \<le> 32767"
  shows "py_int (fl64 (fl64 (of_int m / 32767) * 255)) = (255 * m) div 32767"
proof -
  consider "m = 0" | "m = 32767" | "0 < m" "m < 32767" using assms by linarith
  then show ?thesis
  proof cases
    case 1
    then show ?thesis by (simp add: py_int_def)
  next
    case 2
    then show ?thesis by (simp add: py_int_def fl64_1 fl64_255)
  next
    case 3
    define q :: real where "q = of_int m / 32767"
    define a where "a = fl64 q"
    define b where "b = fl64 (a * 255)"
    define n where "n = (255 * m) div 32767"
    define r where "r = (255 * m) mod 32767"
    have q: "0 < q" "q < 1" using 3 by (simp_all add: q_def)
    have ea: "\<bar>a - q\<bar> \<le> 2 powi (0 - 53)"
      unfolding a_def using q by (intro fl64_error) auto
    have e53: "(2::real) powi (0 - 53) = 1 / 9007199254740992" by simp
    have e45: "(2::real) powi (8 - 53) = 1 / 35184372088832" by simp
    have "\<bar>a * 255\<bar> \<le> 256" using ea q unfolding e53 by linarith
    then have "\<bar>a * 255\<bar> \<le> 2 powi 8" by simp
    then have eb: "\<bar>b - a * 255\<bar> \<le> 2 powi (8 - 53)"
      unfolding b_def by (intro fl64_error) auto
    have r: "1 \<le> r" "r \<le> 32766"
    proof -
      have "r \<noteq> 0" using not_dvd_255 [OF 3] by (simp add: r_def dvd_eq_mod_eq_0)
      moreover have "0 \<le> r" "r < 32767" by (simp_all add: r_def)
      ultimately show "1 \<le> r" "r \<le> 32766" by linarith+
    qed
    have "255 * m = 32767 * n + r" by (simp add: n_def r_def)
    then have "255 * real_of_int m = 32767 * real_of_int n + real_of_int r"
      by (metis of_int_add of_int_mult of_int_numeral)
    then have t: "255 * q = of_int n + of_int r / 32767" by (simp add: q_def)
    have r': "1 \<le> real_of_int r" "real_of_int r \<le> 32766" using r by simp_all
    have lo: "of_int n < b" and hi: "b < of_int n + 1"
      using ea eb t r' unfolding e53 e45 by linarith+
    have fl: "\<lfloor>b\<rfloor> = n" using lo hi by (intro floor_unique) auto
    have "0 \<le> n" using 3 by (simp add: n_def)
    then have "0 \<le> b" using lo by simp
    then show ?thesis using fl by (simp add: py_int_def b_def a_def q_def n_def)
  qed
qed

lemma sint16_range: "- 32768 \<le> sint (w :: 16 word) \<and> sint w \<le> 32767"
  using sint_ge [of w] sint_lt [of w] by simp

lemma sint_np_abs:
  assumes "sint (w :: 16 word) \<noteq> - 32768"
  shows "sint (np_abs w) = \<bar>sint w\<bar>"
proof (cases "sint w < 0")
  case False
  then show ?thesis by (simp add: np_abs_def)
next
  case True
  have "sint (- w) = signed_take_bit 15 (- sint w)"
    by (simp add: sint_word_ariths)
  also have "\<dots> = - sint w"
    using assms sint16_range [of w] by (intro signed_take_bit_int_eq_self) auto
  finally show ?thesis using True by (simp add: np_abs_def)
qed

lemma sint_np_abs_min: "sint (np_abs (32768 :: 16 word)) = - 32768"
  by (simp add: np_abs_def)

text \<open>
  Claim C6, as the code has it. For a successful analysis of a block in which no sample
  is \<open>-32768\<close>, the peak level is \<open>max(abs(samples)) * 255 / 32767\<close> truncated to an
  integer (not rounded), and it lies in \<open>0..255\<close>. The two double operations of the
  source do not change the truncated value.
\<close>

theorem peak_level_truncated:
  assumes "calculate_fft chunk sr = Inr r"
    and "list_all (\<lambda>s. sint s \<noteq> - 32768) (int16_of_bytes chunk)"
  shows "peak_level r = (255 * Max (set (map (\<lambda>s. \<bar>sint s\<bar>) (int16_of_bytes chunk)))) div 32767
    \<and> 0 \<le> peak_level r \<and> peak_level r \<le> 255"
proof -
  let ?xs = "int16_of_bytes chunk"
  let ?m = "Max (set (map (\<lambda>s. \<bar>sint s\<bar>) ?xs))"
  from assms(1) have ne: "chunk \<noteq> []" and ev: "even (length chunk)"
    and pl: "peak_level r = py_int (fl64 (fl64 (of_int (Max (set (map (sint \<circ> np_abs) ?xs))) / 32767) * 255))"
    by (auto simp: calculate_fft_eq Let_def split: if_splits)
  have xs: "?xs \<noteq> []"
    using ne ev length_int16_of_bytes [of chunk] by (cases chunk) (auto elim: evenE)
  have "map (sint \<circ> np_abs) ?xs = map (\<lambda>s. \<bar>sint s\<bar>) ?xs"
    using assms(2) by (intro map_cong) (auto simp: list_all_iff sint_np_abs)
  then have pl': "peak_level r = py_int (fl64 (fl64 (of_int ?m / 32767) * 255))"
    using pl by simp
  have "?m \<in> set (map (\<lambda>s. \<bar>sint s\<bar>) ?xs)" using xs by (intro Max_in) auto
  then obtain s where s: "s \<in> set ?xs" "?m = \<bar>sint s\<bar>" by auto
  have "sint s \<noteq> - 32768" using assms(2) s(1) by (simp add: list_all_iff)
  then have "\<bar>sint s\<bar> \<le> 32767" using sint16_range [of s] by linarith
  then have m: "0 \<le> ?m" "?m \<le> 32767" unfolding s(2) by simp_all
  have eq: "peak_level r = (255 * ?m) div 32767"
    unfolding pl' by (rule peak_formula [OF m])
  have "0 \<le> (255 * ?m) div 32767" "(255 * ?m) div 32767 \<le> 255" using m by simp_all
  then show ?thesis using eq by simp
qed

lemma peak_min_sample: "py_int (fl64 (fl64 (- 32768 / 32767) * 255)) = - 255"
proof -
  define a where "a = fl64 (- 32768 / 32767)"
  define b where "b = fl64 (a * 255)"
  have ea: "\<bar>a - (- 32768 / 32767)\<bar> \<le> 2 powi (1 - 53)"
    unfolding a_def by (intro fl64_error) auto
  have e52: "(2::real) powi (1 - 53) = 1 / 4503599627370496" by simp
  have e45: "(2::real) powi (8 - 53) = 1 / 35184372088832" by simp
  have "\<bar>a * 255\<bar> \<le> 256" using ea unfolding e52 by linarith
  then have "\<bar>a * 255\<bar> \<le> 2 powi 8" by simp
  then have eb: "\<bar>b - a * 255\<bar> \<le> 2 powi (8 - 53)"
    unfolding b_def by (intro fl64_error) auto
  have lo: "- 256 < b" and hi: "b < - 255"
    using ea eb unfolding e52 e45 by linarith+
  have "\<lceil>b\<rceil> = - 255" using lo hi by (intro ceiling_unique) auto
  then show ?thesis using hi by (simp add: py_int_def a_def b_def)
qed

lemma calculate_fft_sample_100:
  "\<exists>r. calculate_fft [100, 0] 44100 = Inr r \<and> peak_level r = 0"
proof -
  have w1: "(ucast (100 :: byte) + push_bit 8 (ucast (0 :: byte)) :: 16 word) = 100" by simp
  have s1: "sint (np_abs (100 :: 16 word)) = 100" by (simp add: np_abs_def)
  have p1: "py_int (fl64 (fl64 (of_int 100 / 32767) * 255)) = 0"
    using peak_formula [of 100] by simp
  have "\<exists>r. calculate_fft [100, 0] 44100 = Inr r
      \<and> peak_level r = py_int (fl64 (fl64 (of_int 100 / 32767) * 255))"
    unfolding calculate_fft_eq by (simp add: Let_def w1 s1)
  then show ?thesis unfolding p1 .
qed

lemma calculate_fft_sample_min:
  "\<exists>r. calculate_fft [0, 128] 44100 = Inr r \<and> peak_level r = - 255"
proof -
  have w2: "(ucast (0 :: byte) + push_bit 8 (ucast (128 :: byte)) :: 16 word) = 32768" by simp
  have "\<exists>r. calculate_fft [0, 128] 44100 = Inr r
      \<and> peak_level r = py_int (fl64 (fl64 (- 32768 / 32767) * 255))"
    unfolding calculate_fft_eq by (simp add: Let_def w2 sint_np_abs_min)
  then show ?thesis unfolding peak_min_sample .
qed

text \<open>
  Claim C6 as stated fails twice. For the one-sample block of value 100 the code gives
  0 where the rounded formula gives 1. For the one-sample block of value \<open>-32768\<close> the
  code gives \<open>-255\<close>, outside \<open>0..255\<close>: \<^verbatim>\<open>np.abs\<close> leaves \<open>-32768\<close> as it is.
\<close>

theorem peak_level_counterexample:
  "\<not> isl (calculate_fft [100, 0] 44100)
   \<and> peak_level (projr (calculate_fft [100, 0] 44100)) = 0
   \<and> peak_level_spec (map sint (int16_of_bytes [100, 0])) = 1
   \<and> \<not> isl (calculate_fft [0, 128] 44100)
   \<and> peak_level (projr (calculate_fft [0, 128] 44100)) = - 255"
proof -
  have w1: "(ucast (100 :: byte) + push_bit 8 (ucast (0 :: byte)) :: 16 word) = 100" by simp
  from calculate_fft_sample_100 obtain r1 where
    r1: "calculate_fft [100, 0] 44100 = Inr r1" "peak_level r1 = 0" by blast
  from calculate_fft_sample_min obtain r2 where
    r2: "calculate_fft [0, 128] 44100 = Inr r2" "peak_level r2 = - 255" by blast
  have sp: "peak_level_spec (map sint (int16_of_bytes [100, 0])) = 1"
    by (simp add: peak_level_spec_def w1 round_def)
  show ?thesis using r1 r2 sp by simp
qed

text \<open>
  The theorem at the one-sample block of value 100: the peak level is 0.
\<close>

theorem peak_level_truncated_witness:
  "calculate_fft [100, 0] 44100 = Inr (projr (calculate_fft [100, 0] 44100))
   \<and> list_all (\<lambda>s. sint s \<noteq> - 32768) (int16_of_bytes [100, 0])
   \<and> peak_level (projr (calculate_fft [100, 0] 44100))
       = (255 * Max (set (map (\<lambda>s. \<bar>sint s\<bar>) (int16_of_bytes [100, 0])))) div 32767
   \<and> peak_level (projr (calculate_fft [100, 0] 44100)) = 0"
proof -
  have w1: "(ucast (100 :: byte) + push_bit 8 (ucast (0 :: byte)) :: 16 word) = 100" by simp
  from calculate_fft_sample_100 obtain r1 where
    r1: "calculate_fft [100, 0] 44100 = Inr r1" "peak_level r1 = 0" by blast
  have h: "calculate_fft [100, 0] 44100 = Inr (projr (calculate_fft [100, 0] 44100))"
    unfolding r1 by simp
  have l: "list_all (\<lambda>s. sint s \<noteq> - 32768) (int16_of_bytes [100, 0])"
    by (simp add: w1)
  have z: "peak_level (projr (calculate_fft [100, 0] 44100)) = 0" unfolding r1 by (simp add: r1)
  from peak_level_truncated [OF h l] h l z show ?thesis by blast
qed

section \<open>Properties of the stream loop\<close>

lemma cycle_ring_buffer:
  "ring_buffer (fst (cycle cfg st audio_data failing)) =
     (if audio_data = [] then ring_buffer st
      else deque_append (maxlen cfg) (ring_buffer st) audio_data)"
  by (simp add: cycle_def Let_def split: sum.splits prod.splits option.splits)

lemma cycle_levels:
  "(outcome_levels (snd (cycle cfg st audio_data failing)) = []
      \<and> previous_smoothed_level (fst (cycle cfg st audio_data failing)) = previous_smoothed_level st)
   \<or> (\<exists>raw. outcome_levels (snd (cycle cfg st audio_data failing))
          = [(raw, smooth (previous_smoothed_level st) raw)]
      \<and> previous_smoothed_level (fst (cycle cfg st audio_data failing))
          = smooth (previous_smoothed_level st) raw)"
  by (auto simp: cycle_def Let_def split: sum.splits prod.splits option.splits)


lemma short_read_example:
  "ring_buffer (initial_state \<lparr>wled_ip_addresses = [], use_multicast = False, multicast_ip = [],
        sample_rate = 44100, buffer_size = 4, chunk_size = 4\<rparr>) = [[0, 0, 0, 0]]"
proof -
  have m: "maxlen \<lparr>wled_ip_addresses = [], use_multicast = False, multicast_ip = [],
        sample_rate = 44100, buffer_size = 4, chunk_size = 4\<rparr> = Suc 0"
    by (simp add: maxlen_def)
  have r: "replicate 4 (0::byte) = [0, 0, 0, 0]" by (simp add: eval_nat_numeral)
  show ?thesis by (simp add: initial_state_def m r deque_append_def)
qed



lemma run_step:
  "run cfg st ((audio_data, failing) # inputs) =
     (if outcome_levels (snd (cycle cfg st audio_data failing)) \<noteq> []
        \<and> (\<exists>r s sent e. snd (cycle cfg st audio_data failing) = Raised r s sent e)
      then (fst (cycle cfg st audio_data failing), [snd (cycle cfg st audio_data failing)])
      else (fst (run cfg (fst (cycle cfg st audio_data failing)) inputs),
            snd (cycle cfg st audio_data failing)
              # snd (run cfg (fst (cycle cfg st audio_data failing)) inputs)))"
  by (cases "cycle cfg st audio_data failing"; cases "snd (cycle cfg st audio_data failing)") auto

lemma last_two: "last (a # b # xs) = last (b # xs)"
  by simp

lemma run_levels:
  "map snd (concat (map outcome_levels (snd (run cfg st inputs))))
     = smoothed_sequence (previous_smoothed_level st)
         (map fst (concat (map outcome_levels (snd (run cfg st inputs)))))
   \<and> previous_smoothed_level (fst (run cfg st inputs))
     = last (previous_smoothed_level st # map snd (concat (map outcome_levels (snd (run cfg st inputs)))))"
proof (induction inputs arbitrary: st)
  case Nil
  show ?case by simp
next
  case (Cons i inputs)
  obtain audio_data failing where i: "i = (audio_data, failing)" by (cases i)
  let ?c = "cycle cfg st audio_data failing"
  let ?L = "concat (map outcome_levels (snd (run cfg (fst ?c) inputs)))"
  note IH = Cons.IH [of "fst ?c"]
  from cycle_levels [of cfg st audio_data failing]
  consider (skip) "outcome_levels (snd ?c) = []"
      "previous_smoothed_level (fst ?c) = previous_smoothed_level st"
    | (level) raw where "outcome_levels (snd ?c) = [(raw, smooth (previous_smoothed_level st) raw)]"
        "previous_smoothed_level (fst ?c) = smooth (previous_smoothed_level st) raw"
    by blast
  then show ?case
  proof cases
    case skip
    have "run cfg st (i # inputs) = (fst (run cfg (fst ?c) inputs), snd ?c # snd (run cfg (fst ?c) inputs))"
      unfolding i run_step using skip(1) by simp
    then have "concat (map outcome_levels (snd (run cfg st (i # inputs)))) = ?L"
      and "fst (run cfg st (i # inputs)) = fst (run cfg (fst ?c) inputs)"
      using skip(1) by simp_all
    then show ?thesis using IH unfolding skip(2) by (simp only:)
  next
    case level
    let ?s = "smooth (previous_smoothed_level st) raw"
    show ?thesis
    proof (cases "\<exists>r s sent e. snd ?c = Raised r s sent e")
      case True
      then have "run cfg st (i # inputs) = (fst ?c, [snd ?c])"
        unfolding i run_step using level(1) by simp
      then have "concat (map outcome_levels (snd (run cfg st (i # inputs)))) = [(raw, ?s)]"
        and "fst (run cfg st (i # inputs)) = fst ?c"
        using level(1) by simp_all
      then show ?thesis using level(2) by simp
    next
      case False
      then have "run cfg st (i # inputs) = (fst (run cfg (fst ?c) inputs), snd ?c # snd (run cfg (fst ?c) inputs))"
        unfolding i run_step by simp
      then have L: "concat (map outcome_levels (snd (run cfg st (i # inputs)))) = (raw, ?s) # ?L"
        and F: "fst (run cfg st (i # inputs)) = fst (run cfg (fst ?c) inputs)"
        using level(1) by simp_all
      from IH have a: "map snd ?L = smoothed_sequence ?s (map fst ?L)"
        and b: "previous_smoothed_level (fst (run cfg (fst ?c) inputs)) = last (?s # map snd ?L)"
        unfolding level(2) by blast+
      have "map snd ((raw, ?s) # ?L) = smoothed_sequence (previous_smoothed_level st) (map fst ((raw, ?s) # ?L))"
        using a by simp
      moreover have "last (previous_smoothed_level st # map snd ((raw, ?s) # ?L)) = last (?s # map snd ?L)"
        by (simp only: list.map snd_conv last_two)
      ultimately show ?thesis unfolding L F b by (simp only: simp_thms)
    qed
  qed
qed

lemma smoothed_literal: "smoothed_sequence 0 [100, 0, 0] = [20, 16, fl64 (64 / 5)]"
  by (simp add: smooth_0_100 smooth_20_0 smooth_16_0)


section \<open>Packets of the stream loop\<close>

lemma pack_f32_eqI:
  assumes "- 126 \<le> k" "k \<le> 127" "2 powi k \<le> \<bar>x\<bar>" "\<bar>x\<bar> < 2 powi (k + 1)"
    and "\<bar>\<bar>x\<bar> / 2 powi (k - 23) - of_int m\<bar> < 1 / 2"
    and "of_int m * (2::real) powi (k - 23) < 2 ^ 128"
  shows "pack_f32 x = Some (word_of_int ((if x < 0 then 2 ^ 31 else 0) + (k + 126) * 2 ^ 23 + m))"
proof -
  have e: "expo_search 253 (- 126) \<bar>x\<bar> = k"
    using assms(1-4) by (intro expo_search_eq) auto
  have r: "rne (\<bar>x\<bar> / 2 powi (k - 23)) = m" by (rule rne_eqI [OF assms(5)])
  show ?thesis using assms(6) by (simp add: pack_f32_def e r Let_def)
qed

lemma pack_f32_zero: "pack_f32 0 = Some 0"
proof -
  have e: "expo_search 253 (- 126) 0 = - 126" by (rule expo_search_low) simp
  have r: "rne 0 = 0" using rne_of_int [of 0] by simp
  show ?thesis by (simp add: pack_f32_def e r)
qed

lemma pack_f32_examples:
  "pack_f32 (3 / 2) = Some 0x3FC00000"
  "pack_f32 (6 / 5) = Some 0x3F99999A"
  "pack_f32 42 = Some 0x42280000"
  "pack_f32 440 = Some 0x43DC0000"
proof -
  show "pack_f32 (3 / 2) = Some 0x3FC00000"
    using pack_f32_eqI [of 0 "3 / 2" 12582912] by simp
  show "pack_f32 (6 / 5) = Some 0x3F99999A"
    using pack_f32_eqI [of 0 "6 / 5" 10066330] by simp
  show "pack_f32 42 = Some 0x42280000"
    using pack_f32_eqI [of 5 42 11010048] by simp
  show "pack_f32 440 = Some 0x43DC0000"
    using pack_f32_eqI [of 8 440 14417920] by simp
qed

lemma packet_example:
  "create_udp_packet pack_f32 [0, 1, 2, 3, 4, 5, 6, 7, 8, 9, 10, 11, 12, 13, 14, 15]
      (3 / 2) (6 / 5) 200 42 440 =
     Inr [0x30, 0x30, 0x30, 0x30, 0x32, 0, 0, 0, 0, 0, 0xC0, 0x3F, 0x9A, 0x99, 0x99, 0x3F, 200, 0,
          0, 1, 2, 3, 4, 5, 6, 7, 8, 9, 10, 11, 12, 13, 14, 15, 0, 0,
          0, 0, 0x28, 0x42, 0, 0, 0xDC, 0x43]"
  by (simp add: create_udp_packet_eq pack_f32_examples le32_def header_def drop_bit_eq_div)

text \<open>
  The layout theorem at the packet of bands \<open>0..15\<close>, raw level 1.5, smoothed level 1.2,
  peak level 200, magnitude sum 42.0 and peak frequency 440.0, with the binary32
  encoding of the floats.
\<close>

theorem create_udp_packet_layout_witness:
  "create_udp_packet pack_f32 [0, 1, 2, 3, 4, 5, 6, 7, 8, 9, 10, 11, 12, 13, 14, 15]
      (3 / 2) (6 / 5) 200 42 440 =
     Inr [0x30, 0x30, 0x30, 0x30, 0x32, 0, 0, 0, 0, 0, 0xC0, 0x3F, 0x9A, 0x99, 0x99, 0x3F, 200, 0,
          0, 1, 2, 3, 4, 5, 6, 7, 8, 9, 10, 11, 12, 13, 14, 15, 0, 0,
          0, 0, 0x28, 0x42, 0, 0, 0xDC, 0x43]
   \<and> length [0x30, 0x30, 0x30, 0x30, 0x32, 0, 0, 0, 0, 0, 0xC0, 0x3F, 0x9A, 0x99, 0x99, 0x3F, 200, 0,
          0, 1, 2, 3, 4, 5, 6, 7, 8, 9, 10, 11, 12, 13, 14, 15, 0, 0,
          0, 0, 0x28, 0x42, 0, 0, 0xDC, 0x43 :: byte] = 44"
  using packet_example create_udp_packet_layout [OF packet_example] by simp

text \<open>
  Claim C1 as stated fails: the packet encoded for that input is not 62 bytes long, and
  for the same input with a peak level of 300 there is no packet.
\<close>

theorem create_udp_packet_length_counterexample:
  "\<not> isl (create_udp_packet pack_f32 [0, 1, 2, 3, 4, 5, 6, 7, 8, 9, 10, 11, 12, 13, 14, 15]
      (3 / 2) (6 / 5) 200 42 440)
   \<and> length (projr (create_udp_packet pack_f32 [0, 1, 2, 3, 4, 5, 6, 7, 8, 9, 10, 11, 12, 13, 14, 15]
      (3 / 2) (6 / 5) 200 42 440)) \<noteq> 62
   \<and> isl (create_udp_packet pack_f32 [0, 1, 2, 3, 4, 5, 6, 7, 8, 9, 10, 11, 12, 13, 14, 15]
      (3 / 2) (6 / 5) 300 42 440)"
  unfolding packet_example by (simp add: create_udp_packet_eq pack_f32_examples)

text \<open>
  Claim C5: the encoder has no failure path and out-of-range integers wrap around.
  The code does not do that: \<^verbatim>\<open>int(...)\<close> leaves an integer as it is, although the
  comments on those lines say \<^verbatim>\<open>limit to uint8\<close>, and \<^verbatim>\<open>struct.pack\<close> raises
  \<^verbatim>\<open>struct.error\<close> for a \<^verbatim>\<open>B\<close> field outside \<open>0..255\<close>. A peak level of \<open>-255\<close> (which
  the analysis produces for a block of samples that are all \<open>-32768\<close>) and a band value
  of 256 both make the encoder raise.
\<close>

theorem create_udp_packet_out_of_range:
  "create_udp_packet pack_f32 [0, 0, 0, 0, 0, 0, 0, 0, 0, 0, 0, 0, 0, 0, 0, 0] 0 0 (- 255) 0 0
     = Inl StructError
   \<and> create_udp_packet pack_f32 [256, 0, 0, 0, 0, 0, 0, 0, 0, 0, 0, 0, 0, 0, 0, 0] 0 0 0 0 0
     = Inl StructError"
  by (simp add: create_udp_packet_eq pack_f32_zero)

section \<open>The peak frequency in doubles\<close>

lemma fl64_error_expo: "\<bar>fl64 x - x\<bar> \<le> 2 powi (expo \<bar>x\<bar> - 53)"
proof -
  let ?q = "(2::real) powi (expo \<bar>x\<bar> - 52)"
  have q: "0 < ?q" by simp
  have "fl64 x - x = (of_int (rne (x / ?q)) - x / ?q) * ?q"
    using q by (simp add: fl64_def Let_def left_diff_distrib)
  then have "\<bar>fl64 x - x\<bar> = \<bar>of_int (rne (x / ?q)) - x / ?q\<bar> * ?q"
    using q by (simp add: abs_mult)
  also have "\<dots> \<le> 1 / 2 * ?q"
    using rne_error [of "x / ?q"] q by (intro mult_right_mono) auto
  also have "\<dots> = 2 powi (expo \<bar>x\<bar> - 53)"
    by (simp add: power_int_diff)
  finally show ?thesis .
qed

lemma fl64_rel_error:
  assumes "2 powi (- 1022) \<le> \<bar>x\<bar>"
  shows "\<bar>fl64 x - x\<bar> \<le> \<bar>x\<bar> * 2 powi (- 53)"
proof -
  let ?e = "expo \<bar>x\<bar>"
  have "(2::real) powi ?e \<le> \<bar>x\<bar>"
    using expo_search_inv [of 2046 "- 1022" "\<bar>x\<bar>"] assms unfolding expo_def by auto
  then have "(2::real) powi ?e * 2 powi (- 53) \<le> \<bar>x\<bar> * 2 powi (- 53)"
    by (intro mult_right_mono) auto
  moreover have "(2::real) powi (?e - 53) = 2 powi ?e * 2 powi (- 53)"
    using power_int_add [of "2::real" ?e "- 53"] by simp
  ultimately show ?thesis using fl64_error_expo [of x] by linarith
qed

lemma peak_frequency_rounded:
  fixes sr :: int and N i :: nat
  assumes "0 \<le> sr" "0 < N" "N \<le> 2 ^ 1000" "i \<le> N div 2"
  shows "fl64 (of_nat i * fl64 (of_int sr / of_nat N)) \<le> of_int sr / 2 * (1 + 2 powi (- 51))"
proof (cases "sr = 0 \<or> i = 0")
  case True
  then show ?thesis using assms(1) by auto
next
  case False
  then have sr: "1 \<le> sr" and i: "1 \<le> i" using assms(1) by auto
  define u :: real where "u = 2 powi (- 53)"
  define q :: real where "q = of_int sr / of_nat N"
  define a where "a = fl64 q"
  define x where "x = of_nat i * a"
  define c :: real where "c = 1 / 2 ^ 1000"
  have c: "0 < c" "2 powi (- 1022) \<le> c / 2"
    by (simp_all add: c_def power_int_minus field_simps)
  have u: "0 < u" "u \<le> 1 / 2" by (simp_all add: u_def)
  have N: "(1::real) \<le> of_nat N" "real N \<le> 2 ^ 1000"
    using assms(2,3) by (simp_all add: numeral_power_le_of_nat_cancel_iff of_nat_le_numeral_power_cancel_iff)
  have "1 / real N \<le> q" unfolding q_def using sr assms(2) by (simp add: divide_right_mono)
  moreover have "c \<le> 1 / real N" unfolding c_def using N by (intro divide_left_mono) auto
  ultimately have qlo: "c \<le> q" by linarith
  then have qpos: "0 < q" using c by linarith
  have "2 powi (- 1022) \<le> \<bar>q\<bar>" using qlo qpos c by linarith
  from fl64_rel_error [OF this] have ea: "\<bar>a - q\<bar> \<le> q * u"
    using qpos by (simp add: a_def u_def)
  then have ahi: "a \<le> q * (1 + u)" and alo: "q * (1 - u) \<le> a"
    by (simp_all add: algebra_simps abs_le_iff)
  have "q * (1 / 2) \<le> q * (1 - u)" using u qpos by (intro mult_left_mono) auto
  then have alo': "q / 2 \<le> a" using alo by simp
  have apos: "0 < a" using alo' qpos by linarith
  have "a \<le> x" unfolding x_def using i apos by (simp add: mult_le_cancel_right2)
  then have xlo: "c / 2 \<le> x" using alo' qlo by linarith
  have "2 powi (- 1022) \<le> \<bar>x\<bar>" using xlo c by linarith
  from fl64_rel_error [OF this] have "\<bar>fl64 x - x\<bar> \<le> \<bar>x\<bar> * u" by (simp add: u_def)
  moreover have xpos: "0 < x" using xlo c by linarith
  ultimately have "fl64 x \<le> x * (1 + u)" by (simp add: algebra_simps abs_le_iff)
  also have "x \<le> real N / 2 * (q * (1 + u))"
  proof -
    have "2 * (N div 2) \<le> N" by simp
    then have "real (2 * (N div 2)) \<le> real N" by (rule iffD2 [OF of_nat_le_iff])
    then have "real (N div 2) \<le> real N / 2" by simp
    moreover have "real i \<le> real (N div 2)" using assms(4) by simp
    ultimately have "real i \<le> real N / 2" by linarith
    then show ?thesis unfolding x_def using ahi apos u qpos
      by (intro mult_mono) auto
  qed
  also have "real N / 2 * (q * (1 + u)) = of_int sr / 2 * (1 + u)"
    using assms(2) by (simp add: q_def)
  finally have "fl64 x \<le> of_int sr / 2 * (1 + u) * (1 + u)"
    using u by (simp add: mult_right_mono)
  also have "\<dots> = of_int sr / 2 * ((1 + u) * (1 + u))" by simp
  also have "(1 + u) * (1 + u) \<le> 1 + 2 powi (- 51)"
    by (simp add: u_def power_int_minus field_simps)
  finally show ?thesis using sr unfolding x_def a_def q_def
    by (simp add: mult_left_mono)
qed



section \<open>A run of the loop\<close>

lemma dft_constant:
  assumes "0 < k" and "k \<le> N div 2"
  shows "(\<Sum>n<N. of_int c * cis (- 2 * pi * real k * real n / real N)) = 0"
proof -
  have N: "0 < N" using assms by auto
  let ?phi = "- (2 * pi * real k / real N)"
  have tm: "of_int c * cis (- 2 * pi * real k * real n / real N) = of_int c * cis ?phi ^ n" for n
  proof -
    have "real n * ?phi = - 2 * pi * real k * real n / real N" by (simp add: field_simps)
    then show ?thesis by (simp only: DeMoivre)
  qed
  have "2 * k \<le> N" using assms(2) by auto
  then have "2 * real k \<le> real N" by (metis of_nat_le_iff of_nat_mult of_nat_numeral)
  then have "2 * real k / real N \<le> 1" using N by simp
  then have "pi * (2 * real k / real N) \<le> pi * 1" by (intro mult_left_mono) auto
  then have le: "- ?phi \<le> pi" by (simp add: mult.assoc mult.left_commute)
  have pos: "0 < - ?phi" using assms(1) N by simp
  have "cos (- ?phi) < cos 0" using pos le by (intro cos_monotone_0_pi) auto
  then have "Re (cis ?phi) \<noteq> 1" by simp
  then have ne: "cis ?phi \<noteq> 1" by (metis one_complex.simps(1))
  have "real N * ?phi = 2 * pi * (- real k)" using N by (simp add: field_simps)
  then have "cis ?phi ^ N = cis (2 * pi * (- real k))" by (simp only: DeMoivre)
  also have "\<dots> = 1" by (rule cis_multiple_2pi) simp
  finally have one: "cis ?phi ^ N = 1" .
  have "(\<Sum>n<N. of_int c * cis (- 2 * pi * real k * real n / real N)) = of_int c * (\<Sum>n<N. cis ?phi ^ n)"
    by (simp only: tm sum_distrib_left)
  then show ?thesis unfolding geometric_sum [OF ne] one by simp
qed

lemma rfft_abs_constant:
  assumes "0 \<le> c" and "0 < N"
  shows "rfft_abs (replicate N c) = real_of_int (int N * c) # replicate (N div 2) 0"
proof -
  let ?xs = "replicate N c"
  have bin: "cmod (\<Sum>n<length ?xs. of_int (?xs ! n) * cis (- 2 * pi * real k * real n / real (length ?xs)))
      = (if k = 0 then real_of_int (int N * c) else 0)" if "k \<le> N div 2" for k
  proof -
    have s: "(\<Sum>n<length ?xs. of_int (?xs ! n) * cis (- 2 * pi * real k * real n / real (length ?xs)))
        = (\<Sum>n<N. of_int c * cis (- 2 * pi * real k * real n / real N))"
      by (rule sum.cong) simp_all
    show ?thesis
    proof (cases "k = 0")
      case True
      have "(\<Sum>n<N. of_int c * cis (- 2 * pi * real k * real n / real N)) = of_int (int N * c)"
        using True by simp
      then show ?thesis unfolding s using True assms(1) by (simp only: norm_of_int) simp
    next
      case False
      then have "0 < k" by simp
      from dft_constant [OF this that] show ?thesis unfolding s using False by simp
    qed
  qed
  have d: "length ?xs div 2 + 1 = N div 2 + 1" by simp
  have "rfft_abs ?xs = map (\<lambda>k. if k = 0 then real_of_int (int N * c) else 0) [0..<N div 2 + 1]"
    unfolding rfft_abs_def d
  proof (rule map_cong [OF refl])
    fix k assume "k \<in> set [0..<N div 2 + 1]"
    then have "k \<le> N div 2" by auto
    then show "cmod (\<Sum>n<length ?xs. of_int (?xs ! n) * cis (- 2 * pi * real k * real n / real (length ?xs)))
      = (if k = 0 then real_of_int (int N * c) else 0)" by (rule bin)
  qed
  also have "[0..<N div 2 + 1] = 0 # map Suc [0..<N div 2]"
    by (simp add: upt_conv_Cons map_Suc_upt del: upt_Suc)
  finally show ?thesis by (simp add: map_replicate_const o_def)
qed


lemma int16_of_bytes_tone: "int16_of_bytes (concat (replicate M [100, 0])) = replicate M 100"
  by (induction M) simp_all

lemma fl64_100: "fl64 100 = 100"
  using fl64_int_exact [of 6 100] by simp

lemma calculate_fft_tone:
  "calculate_fft (concat (replicate 30 [100, 0])) 8000 =
     Inr \<lparr>fft_values = 255 # replicate 15 0, raw_level = 100, peak_level = 0,
          fft_magnitude_sum = 3000, fft_peak_frequency = 0\<rparr>"
proof -
  let ?c = "concat (replicate 30 [100, 0 :: byte])"
  have len: "length ?c = 60" by (simp add: length_concat sum_list_replicate)
  have ne: "?c \<noteq> []" using len by auto
  have xs: "map sint (int16_of_bytes ?c) = replicate 30 100"
    and ab: "map (sint \<circ> np_abs) (int16_of_bytes ?c) = replicate 30 100"
    by (simp_all add: int16_of_bytes_tone np_abs_def)
  have mags: "rfft_abs (replicate 30 100) = 3000 # replicate 15 0"
    using rfft_abs_constant [of 100 30] by simp
  have mx: "Max (set (3000 # replicate 15 (0::real))) = 3000" by simp
  have mi: "Max (set (replicate 30 (100::int))) = 100" by simp
  have mean: "np_mean (replicate 30 100) = 100"
    by (simp add: np_mean_def sum_list_replicate fl64_100)
  have peak: "py_int (fl64 (fl64 (of_int 100 / 32767) * 255)) = 0"
    using peak_formula [of 100] by simp
  have bands: "map (\<lambda>x. astype_uint8 (np_interp x (0, 3000) (0, 255))) (take 16 (3000 # replicate 15 0))
      = 255 # replicate 15 0"
    by (simp add: np_interp_def astype_uint8_def py_int_def map_replicate_const eval_nat_numeral)
  have sum: "sum_list (3000 # replicate 15 (0::real)) = 3000"
    by (simp add: sum_list_replicate)
  have arg: "np_argmax (3000 # replicate 15 (0::real)) = 0"
    by (simp add: np_argmax_Max)
  have ovf: "\<not> 2 ^ 1024 - 2 ^ 970 \<le> \<bar>of_int 8000 / of_nat (60 div 2) :: real\<bar>" by simp
  show ?thesis
    unfolding calculate_fft_eq len Let_def xs ab mags mx mi mean peak bands sum arg
    using ne ovf by simp
qed


lemma pack_f32_levels:
  "pack_f32 100 = Some 0x42C80000"
  "pack_f32 20 = Some 0x41A00000"
  "pack_f32 3000 = Some 0x453B8000"
  "pack_f32 16 = Some 0x41800000"
  "pack_f32 (3602879701896397 / 281474976710656) = Some 0x414CCCCD"
proof -
  show "pack_f32 100 = Some 0x42C80000"
    using pack_f32_eqI [of 6 100 13107200] by simp
  show "pack_f32 20 = Some 0x41A00000"
    using pack_f32_eqI [of 4 20 10485760] by simp
  show "pack_f32 3000 = Some 0x453B8000"
    using pack_f32_eqI [of 11 3000 12288000] by simp
  show "pack_f32 16 = Some 0x41800000"
    using pack_f32_eqI [of 4 16 8388608] by simp
  show "pack_f32 (3602879701896397 / 281474976710656) = Some 0x414CCCCD"
    using pack_f32_eqI [of 3 "3602879701896397 / 281474976710656" 13421773] by simp
qed

lemma packet_tone:
  "create_udp_packet pack_f32 (255 # replicate 15 0) 100 20 0 3000 0 =
     Inr [48, 48, 48, 48, 50, 0, 0, 0, 0, 0, 200, 66, 0, 0, 160, 65, 0, 0,
          255, 0, 0, 0, 0, 0, 0, 0, 0, 0, 0, 0, 0, 0, 0, 0, 0, 0,
          0, 128, 59, 69, 0, 0, 0, 0]"
proof -
  have b: "255 # replicate 15 (0::int) = [255, 0, 0, 0, 0, 0, 0, 0, 0, 0, 0, 0, 0, 0, 0, 0]"
    by (simp add: eval_nat_numeral)
  show ?thesis unfolding b
    by (simp add: create_udp_packet_eq pack_f32_levels pack_f32_zero le32_def header_def drop_bit_eq_div)
qed

lemma packet_silence_16:
  "create_udp_packet pack_f32 (replicate 16 255) 0 16 0 0 0 =
     Inr [48, 48, 48, 48, 50, 0, 0, 0, 0, 0, 0, 0, 0, 0, 128, 65, 0, 0,
          255, 255, 255, 255, 255, 255, 255, 255, 255, 255, 255, 255, 255, 255, 255, 255, 0, 0,
          0, 0, 0, 0, 0, 0, 0, 0]"
proof -
  have b: "replicate 16 (255::int) = [255, 255, 255, 255, 255, 255, 255, 255, 255, 255, 255, 255, 255, 255, 255, 255]"
    by (simp add: eval_nat_numeral)
  show ?thesis unfolding b
    by (simp add: create_udp_packet_eq pack_f32_levels pack_f32_zero le32_def header_def drop_bit_eq_div)
qed

lemma packet_silence_12_8:
  "create_udp_packet pack_f32 (replicate 16 255) 0 (fl64 (64 / 5)) 0 0 0 =
     Inr [48, 48, 48, 48, 50, 0, 0, 0, 0, 0, 0, 0, 205, 204, 76, 65, 0, 0,
          255, 255, 255, 255, 255, 255, 255, 255, 255, 255, 255, 255, 255, 255, 255, 255, 0, 0,
          0, 0, 0, 0, 0, 0, 0, 0]"
proof -
  have b: "replicate 16 (255::int) = [255, 255, 255, 255, 255, 255, 255, 255, 255, 255, 255, 255, 255, 255, 255, 255]"
    by (simp add: eval_nat_numeral)
  show ?thesis unfolding b fl64_12_8
    by (simp add: create_udp_packet_eq pack_f32_levels pack_f32_zero le32_def header_def drop_bit_eq_div)
qed


lemma cycle_sent:
  assumes "maxlen cfg = 1" and "length (ring_buffer st) \<le> 1"
    and "audio_data \<noteq> []" and "length audio_data = chunk_size cfg"
    and "calculate_fft audio_data (sample_rate cfg) = Inr r"
    and "create_udp_packet pack_f32 (fft_values r) (raw_level r)
           (smooth (previous_smoothed_level st) (raw_level r)) (peak_level r)
           (fft_magnitude_sum r) (fft_peak_frequency r) = Inr pkt"
    and "dispatch cfg failing = (sent, None)"
  shows "cycle cfg st audio_data failing =
     (\<lparr>previous_smoothed_level = smooth (previous_smoothed_level st) (raw_level r),
       ring_buffer = [audio_data]\<rparr>,
      Sent r (smooth (previous_smoothed_level st) (raw_level r)) pkt sent)"
proof -
  have rb: "deque_append (Suc 0) (ring_buffer st) audio_data = [audio_data]"
    using assms(2) by (cases "ring_buffer st") (simp_all add: deque_append_def)
  have win: "analysis_window (chunk_size cfg) [audio_data] = audio_data"
    using assms(4) by (simp add: analysis_window_def)
  show ?thesis
    unfolding cycle_def using assms(3) by (simp add: assms(1,5,6,7) rb win Let_def)
qed

lemma example_run:
  "run example_config (initial_state example_config)
     [(concat (replicate 30 [100, 0]), []), (replicate 60 0, []), (replicate 60 0, [])]
   = (\<lparr>previous_smoothed_level = fl64 (64 / 5), ring_buffer = [replicate 60 0]\<rparr>,
      [Sent \<lparr>fft_values = 255 # replicate 15 0, raw_level = 100, peak_level = 0,
             fft_magnitude_sum = 3000, fft_peak_frequency = 0\<rparr> 20
            [48, 48, 48, 48, 50, 0, 0, 0, 0, 0, 200, 66, 0, 0, 160, 65, 0, 0,
             255, 0, 0, 0, 0, 0, 0, 0, 0, 0, 0, 0, 0, 0, 0, 0, 0, 0,
             0, 128, 59, 69, 0, 0, 0, 0] [''10.0.0.1''],
       Sent \<lparr>fft_values = replicate 16 255, raw_level = 0, peak_level = 0,
             fft_magnitude_sum = 0, fft_peak_frequency = 0\<rparr> 16
            [48, 48, 48, 48, 50, 0, 0, 0, 0, 0, 0, 0, 0, 0, 128, 65, 0, 0,
             255, 255, 255, 255, 255, 255, 255, 255, 255, 255, 255, 255, 255, 255, 255, 255, 0, 0,
             0, 0, 0, 0, 0, 0, 0, 0] [''10.0.0.1''],
       Sent \<lparr>fft_values = replicate 16 255, raw_level = 0, peak_level = 0,
             fft_magnitude_sum = 0, fft_peak_frequency = 0\<rparr> (fl64 (64 / 5))
            [48, 48, 48, 48, 50, 0, 0, 0, 0, 0, 0, 0, 205, 204, 76, 65, 0, 0,
             255, 255, 255, 255, 255, 255, 255, 255, 255, 255, 255, 255, 255, 255, 255, 255, 0, 0,
             0, 0, 0, 0, 0, 0, 0, 0] [''10.0.0.1'']])"
proof -
  let ?cfg = example_config
  let ?tone = "concat (replicate 30 [100, 0 :: byte])"
  let ?sil = "replicate 60 (0 :: byte)"
  let ?r1 = "\<lparr>fft_values = 255 # replicate 15 0, raw_level = 100, peak_level = 0,
             fft_magnitude_sum = 3000, fft_peak_frequency = (0::real)\<rparr>"
  let ?r0 = "\<lparr>fft_values = replicate 16 255, raw_level = 0, peak_level = 0,
             fft_magnitude_sum = 0, fft_peak_frequency = (0::real)\<rparr>"
  have m: "maxlen ?cfg = 1" by (simp add: example_config_def maxlen_def)
  have cs: "chunk_size ?cfg = 60" and sr: "sample_rate ?cfg = 8000"
    by (simp_all add: example_config_def)
  have d: "dispatch ?cfg [] = ([''10.0.0.1''], None)"
    by (simp add: example_config_def dispatch_def sendto_def)
  have st0: "initial_state ?cfg = \<lparr>previous_smoothed_level = 0, ring_buffer = [?sil]\<rparr>"
    unfolding initial_state_def m cs by (simp add: deque_append_def)
  have lt: "length ?tone = 60" by (simp add: length_concat sum_list_replicate)
  have tne: "?tone \<noteq> []" using lt by auto
  have sne: "?sil \<noteq> []" by simp
  have e: "(2::nat) * 30 = 60" and mn: "min 16 (30 div 2 + 1) = (16::nat)" by simp_all
  have "calculate_fft (replicate (2 * 30) 0) 8000 =
     Inr \<lparr>fft_values = replicate (min 16 (30 div 2 + 1)) 255, raw_level = 0, peak_level = 0,
          fft_magnitude_sum = 0, fft_peak_frequency = 0\<rparr>"
    by (rule calculate_fft_silence) simp_all
  then have sil: "calculate_fft ?sil 8000 = Inr ?r0" unfolding e mn .
  have c1: "cycle ?cfg \<lparr>previous_smoothed_level = 0, ring_buffer = [?sil]\<rparr> ?tone [] =
      (\<lparr>previous_smoothed_level = 20, ring_buffer = [?tone]\<rparr>,
       Sent ?r1 20 [48, 48, 48, 48, 50, 0, 0, 0, 0, 0, 200, 66, 0, 0, 160, 65, 0, 0,
             255, 0, 0, 0, 0, 0, 0, 0, 0, 0, 0, 0, 0, 0, 0, 0, 0, 0,
             0, 128, 59, 69, 0, 0, 0, 0] [''10.0.0.1''])"
    using cycle_sent [OF m _ tne _ _ _ d, of "\<lparr>previous_smoothed_level = 0, ring_buffer = [?sil]\<rparr>" ?r1]
    by (simp add: cs sr lt calculate_fft_tone smooth_0_100 packet_tone)
  have c2: "cycle ?cfg \<lparr>previous_smoothed_level = 20, ring_buffer = [?tone]\<rparr> ?sil [] =
      (\<lparr>previous_smoothed_level = 16, ring_buffer = [?sil]\<rparr>,
       Sent ?r0 16 [48, 48, 48, 48, 50, 0, 0, 0, 0, 0, 0, 0, 0, 0, 128, 65, 0, 0,
             255, 255, 255, 255, 255, 255, 255, 255, 255, 255, 255, 255, 255, 255, 255, 255, 0, 0,
             0, 0, 0, 0, 0, 0, 0, 0] [''10.0.0.1''])"
    using cycle_sent [OF m _ sne _ _ _ d, of "\<lparr>previous_smoothed_level = 20, ring_buffer = [?tone]\<rparr>" ?r0]
    by (simp add: cs sr sil smooth_20_0 packet_silence_16)
  have c3: "cycle ?cfg \<lparr>previous_smoothed_level = 16, ring_buffer = [?sil]\<rparr> ?sil [] =
      (\<lparr>previous_smoothed_level = fl64 (64 / 5), ring_buffer = [?sil]\<rparr>,
       Sent ?r0 (fl64 (64 / 5)) [48, 48, 48, 48, 50, 0, 0, 0, 0, 0, 0, 0, 205, 204, 76, 65, 0, 0,
             255, 255, 255, 255, 255, 255, 255, 255, 255, 255, 255, 255, 255, 255, 255, 255, 0, 0,
             0, 0, 0, 0, 0, 0, 0, 0] [''10.0.0.1''])"
    using cycle_sent [OF m _ sne _ _ _ d, of "\<lparr>previous_smoothed_level = 16, ring_buffer = [?sil]\<rparr>" ?r0]
    by (simp add: cs sr sil smooth_16_0 packet_silence_12_8)
  show ?thesis
    unfolding st0 by (simp only: run.simps c1 c2 c3 prod.case outcome.case fst_conv snd_conv)
qed


end
